theory Spec2Isabelle
  imports Main "HOL-Library.AList" "HOL-Library.Sublist"
begin

section \<open>The WAF assessment workbook generator\<close>

text \<open>
  A shallow embedding of \<^verbatim>\<open>scripts/generate_waf_assessment_excel.py\<close>. The script reads a
  markdown document and a CSV file, fills five worksheets of an openpyxl workbook and
  saves it. The embedding keeps the script's functions and names; the objects of the
  spreadsheet library (workbook, worksheet, cell, table) are records, the file system is a
  map from paths to nodes, and every exception is a value of \<open>error\<close>.
\<close>

subsection \<open>Python values\<close>

text \<open>
  A Python \<^verbatim>\<open>str\<close> is a sequence of Unicode code points, so it is a list of naturals
  (\<open>length\<close> counts characters as Python's \<^verbatim>\<open>len\<close> does). \<open>lit\<close> writes an ASCII literal.
\<close>

type_synonym pystr = "nat list"

definition lit :: "string \<Rightarrow> pystr" where
  "lit cs = map of_char cs"

text \<open>The two non-ASCII characters of the script's literals.\<close>

definition rightwards_arrow :: pystr where
  "rightwards_arrow = [8594]"

definition en_dash :: pystr where
  "en_dash = [8211]"

datatype error =
    FileNotFoundError pystr
  | IsADirectoryError
  | NotADirectoryError
  | FileExistsError
  | UnicodeDecodeError
  | IllegalCharacterError
  | ValueError
  | CsvError
  | NoSuchSheet

text \<open>Sequencing of steps that may raise: the first exception ends the run.\<close>

fun run_steps :: "('a \<Rightarrow> error + 'a) list \<Rightarrow> 'a \<Rightarrow> error + 'a" where
  "run_steps [] x = Inr x"
| "run_steps (f # fs) x = (case f x of Inl e \<Rightarrow> Inl e | Inr y \<Rightarrow> run_steps fs y)"

definition is_ok :: "error + 'a \<Rightarrow> bool" where
  "is_ok r = (case r of Inl _ \<Rightarrow> False | Inr _ \<Rightarrow> True)"

text \<open>\<^verbatim>\<open>str(n)\<close> of a non-negative integer, as the f-strings of the script render it.\<close>

fun str_nat :: "nat \<Rightarrow> pystr" where
  "str_nat n = (if n < 10 then [48 + n] else str_nat (n div 10) @ [48 + n mod 10])"

declare str_nat.simps [simp del]

subsection \<open>Column letters and cell addresses (openpyxl.utils)\<close>

text \<open>
  \<^verbatim>\<open>get_column_letter\<close>: bijective base 26, for 1 to 18278 (\<^verbatim>\<open>ZZZ\<close>), ValueError otherwise.
  The library appends the letters least significant first and reverses them at the end;
  the loop below conses each letter in front, which is the reversed list.
\<close>

fun column_letter_loop :: "nat \<Rightarrow> pystr \<Rightarrow> pystr" where
  "column_letter_loop col_idx letters =
     (if col_idx = 0 then letters
      else if col_idx mod 26 = 0
        then column_letter_loop (col_idx div 26 - 1) ((26 + 64) # letters)
        else column_letter_loop (col_idx div 26) ((col_idx mod 26 + 64) # letters))"

declare column_letter_loop.simps [simp del]

definition get_column_letter :: "nat \<Rightarrow> error + pystr" where
  "get_column_letter col_idx =
     (if 1 \<le> col_idx \<and> col_idx \<le> 18278 then Inr (column_letter_loop col_idx [])
      else Inl ValueError)"

text \<open>
  A single-cell address such as \<^verbatim>\<open>A7\<close>: one to three capital letters, then the row in
  decimal digits without a leading zero. \<open>None\<close> for anything else.
\<close>

definition is_digit :: "nat \<Rightarrow> bool" where
  "is_digit c = (48 \<le> c \<and> c \<le> 57)"

definition is_capital :: "nat \<Rightarrow> bool" where
  "is_capital c = (65 \<le> c \<and> c \<le> 90)"

definition column_index_from_string :: "pystr \<Rightarrow> nat" where
  "column_index_from_string letters = foldl (\<lambda>acc c. acc * 26 + (c - 64)) 0 letters"

definition int_of_digits :: "pystr \<Rightarrow> nat" where
  "int_of_digits ds = foldl (\<lambda>acc c. acc * 10 + (c - 48)) 0 ds"

definition coordinate_to_tuple :: "pystr \<Rightarrow> (nat \<times> nat) option" where
  "coordinate_to_tuple coordinate =
     (let col = takeWhile is_capital coordinate;
          row = dropWhile is_capital coordinate
      in if 1 \<le> length col \<and> length col \<le> 3 \<and> row \<noteq> [] \<and> list_all is_digit row
            \<and> hd row \<noteq> 48
         then Some (int_of_digits row, column_index_from_string col)
         else None)"

subsection \<open>Cells and their values (openpyxl.cell)\<close>

text \<open>
  The values the script hands to the library: \<^verbatim>\<open>None\<close>, a string, an integer, or (from
  \<^verbatim>\<open>csv.DictReader\<close>, for a row longer than the header) a list of strings.
\<close>

datatype pyval = PNone | PStr pystr | PInt int | PList "pystr list"

text \<open>
  \<^verbatim>\<open>Cell.check_string\<close>: a string is cut to its first 32767 characters, and one that then
  holds a control character other than tab, line feed and carriage return raises
  IllegalCharacterError. A value that is no string, number or \<^verbatim>\<open>None\<close> raises ValueError
  (\<^verbatim>\<open>Cell._bind_value\<close>).
\<close>

definition illegal_character :: "nat \<Rightarrow> bool" where
  "illegal_character c = (c \<le> 8 \<or> c = 11 \<or> c = 12 \<or> (14 \<le> c \<and> c \<le> 31))"

definition check_string :: "pystr \<Rightarrow> error + pystr" where
  "check_string v =
     (if list_ex illegal_character (take 32767 v) then Inl IllegalCharacterError
      else Inr (take 32767 v))"

fun bind_value :: "pyval \<Rightarrow> error + pyval" where
  "bind_value PNone = Inr PNone"
| "bind_value (PInt n) = Inr (PInt n)"
| "bind_value (PStr v) = (case check_string v of Inl e \<Rightarrow> Inl e | Inr v' \<Rightarrow> Inr (PStr v'))"
| "bind_value (PList vs) = Inl ValueError"

record font =
  font_size :: "nat option"
  font_bold :: bool

record pattern_fill =
  fill_type :: pystr
  fgColor :: pystr

record alignment =
  horizontal :: "pystr option"
  vertical :: "pystr option"
  wrap_text :: "bool option"

text \<open>A cell: its value, and the styles the script has assigned (\<open>None\<close>: the default).\<close>

record cell =
  cell_value :: pyval
  cell_font :: "font option"
  cell_fill :: "pattern_fill option"
  cell_alignment :: "alignment option"

definition new_cell :: "pyval \<Rightarrow> cell" where
  "new_cell v = \<lparr>cell_value = v, cell_font = None, cell_fill = None, cell_alignment = None\<rparr>"

definition Font :: "nat option \<Rightarrow> bool \<Rightarrow> font" where
  "Font sz b = \<lparr>font_size = sz, font_bold = b\<rparr>"

definition PatternFill :: "pystr \<Rightarrow> pystr \<Rightarrow> pattern_fill" where
  "PatternFill ft fg = \<lparr>fill_type = ft, fgColor = fg\<rparr>"

definition Alignment :: "pystr option \<Rightarrow> pystr option \<Rightarrow> bool option \<Rightarrow> alignment" where
  "Alignment h v w = \<lparr>horizontal = h, vertical = v, wrap_text = w\<rparr>"

subsection \<open>Worksheets (openpyxl.worksheet)\<close>

record table_style_info =
  style_name :: pystr
  showFirstColumn :: bool
  showLastColumn :: bool
  showRowStripes :: bool
  showColumnStripes :: bool

record table =
  displayName :: pystr
  ref :: pystr
  tableStyleInfo :: "table_style_info option"

record cell_is_rule =
  operator :: pystr
  formula :: "pystr list"
  rule_fill :: pattern_fill

text \<open>
  A worksheet. \<open>cells\<close> is the library's dictionary from (row, column) to the cell, in
  insertion order; \<open>current_row\<close> is the row \<^verbatim>\<open>append\<close> wrote last.
\<close>

record worksheet =
  title :: pystr
  freeze_panes :: "pystr option"
  cells :: "((nat \<times> nat) \<times> cell) list"
  current_row :: nat
  column_widths :: "(pystr \<times> nat) list"
  row_heights :: "(nat \<times> nat) list"
  conditional_formatting :: "(pystr \<times> cell_is_rule) list"
  tables :: "table list"
  auto_filter_ref :: "pystr option"

definition new_worksheet :: "pystr \<Rightarrow> worksheet" where
  "new_worksheet t =
     \<lparr>title = t, freeze_panes = None, cells = [], current_row = 0, column_widths = [],
      row_heights = [], conditional_formatting = [], tables = [], auto_filter_ref = None\<rparr>"

text \<open>
  \<^verbatim>\<open>ws.cell(row, column)\<close> returns the cell, making an empty one where there is none; a new
  cell moves \<open>current_row\<close> up to its row. The library refuses a row or a column below 1
  and a row above 1048576 (also for a cell that exists) with ValueError; \<^verbatim>\<open>ws.append\<close> makes
  its cells without this test.
\<close>

definition ws_cell :: "nat \<Rightarrow> nat \<Rightarrow> worksheet \<Rightarrow> error + worksheet" where
  "ws_cell r c ws =
     (if r < 1 \<or> c < 1 \<or> 1048576 < r then Inl ValueError
      else if map_of (cells ws) (r, c) \<noteq> None then Inr ws
      else Inr (ws\<lparr>cells := cells ws @ [((r, c), new_cell PNone)],
                   current_row := max r (current_row ws)\<rparr>))"

text \<open>\<^verbatim>\<open>ws.cell(row, column).attr = x\<close>, for a style attribute of the cell.\<close>

definition style_cell :: "nat \<Rightarrow> nat \<Rightarrow> (cell \<Rightarrow> cell) \<Rightarrow> worksheet \<Rightarrow> error + worksheet" where
  "style_cell r c f ws =
     (case ws_cell r c ws of
        Inl e \<Rightarrow> Inl e
      | Inr ws' \<Rightarrow> Inr (ws'\<lparr>cells := AList.map_entry (r, c) f (cells ws')\<rparr>))"

definition set_font :: "font \<Rightarrow> cell \<Rightarrow> cell" where
  "set_font x cl = cl\<lparr>cell_font := Some x\<rparr>"

definition set_fill :: "pattern_fill \<Rightarrow> cell \<Rightarrow> cell" where
  "set_fill x cl = cl\<lparr>cell_fill := Some x\<rparr>"

definition set_alignment :: "alignment \<Rightarrow> cell \<Rightarrow> cell" where
  "set_alignment x cl = cl\<lparr>cell_alignment := Some x\<rparr>"

text \<open>\<^verbatim>\<open>ws[addr] = v\<close> and \<^verbatim>\<open>ws[addr].attr = x\<close>, for the address of one cell.\<close>

definition ws_setitem :: "pystr \<Rightarrow> pyval \<Rightarrow> worksheet \<Rightarrow> error + worksheet" where
  "ws_setitem addr v ws =
     (case coordinate_to_tuple addr of
        None \<Rightarrow> Inl ValueError
      | Some (r, c) \<Rightarrow>
          (case ws_cell r c ws of
             Inl e \<Rightarrow> Inl e
           | Inr ws' \<Rightarrow>
               (case bind_value v of
                  Inl e \<Rightarrow> Inl e
                | Inr v' \<Rightarrow>
                    Inr (ws'\<lparr>cells :=
                      AList.map_entry (r, c) (\<lambda>cl. cl\<lparr>cell_value := v'\<rparr>) (cells ws')\<rparr>))))"

definition style_item :: "pystr \<Rightarrow> (cell \<Rightarrow> cell) \<Rightarrow> worksheet \<Rightarrow> error + worksheet" where
  "style_item addr f ws =
     (case coordinate_to_tuple addr of
        None \<Rightarrow> Inl ValueError
      | Some (r, c) \<Rightarrow> style_cell r c f ws)"

text \<open>
  \<^verbatim>\<open>ws.append(iterable)\<close>: the values go into a row of new cells below \<open>current_row\<close>, from
  column 1 on, each checked as it is stored.
\<close>

fun append_cells ::
  "nat \<Rightarrow> nat \<Rightarrow> pyval list \<Rightarrow> ((nat \<times> nat) \<times> cell) list \<Rightarrow> error + ((nat \<times> nat) \<times> cell) list"
where
  "append_cells row_idx col_idx [] cs = Inr cs"
| "append_cells row_idx col_idx (content # rest) cs =
     (case bind_value content of
        Inl e \<Rightarrow> Inl e
      | Inr v \<Rightarrow>
          append_cells row_idx (Suc col_idx) rest
            (AList.update (row_idx, col_idx) (new_cell v) cs))"

definition ws_append :: "pyval list \<Rightarrow> worksheet \<Rightarrow> error + worksheet" where
  "ws_append iterable ws =
     (let row_idx = current_row ws + 1 in
      case append_cells row_idx 1 iterable (cells ws) of
        Inl e \<Rightarrow> Inl e
      | Inr cs \<Rightarrow> Inr (ws\<lparr>cells := cs, current_row := row_idx\<rparr>))"

text \<open>
  \<^verbatim>\<open>for row in ws.iter_rows(min_row, max_row, min_col, max_col): for cell in row:
  cell.alignment = a\<close>. The iterator visits the rectangle row by row through \<^verbatim>\<open>ws.cell\<close>.
\<close>

definition align_rows ::
  "nat \<Rightarrow> nat \<Rightarrow> nat \<Rightarrow> nat \<Rightarrow> alignment \<Rightarrow> (worksheet \<Rightarrow> error + worksheet) list" where
  "align_rows min_row max_row min_col max_col a =
     concat (map (\<lambda>r. map (\<lambda>c. style_cell r c (set_alignment a)) [min_col..<Suc max_col])
                 [min_row..<Suc max_row])"

definition set_title :: "pystr \<Rightarrow> worksheet \<Rightarrow> error + worksheet" where
  "set_title t ws = Inr (ws\<lparr>title := t\<rparr>)"

definition set_freeze_panes :: "pystr \<Rightarrow> worksheet \<Rightarrow> error + worksheet" where
  "set_freeze_panes a ws = Inr (ws\<lparr>freeze_panes := Some a\<rparr>)"

definition set_row_height :: "nat \<Rightarrow> nat \<Rightarrow> worksheet \<Rightarrow> error + worksheet" where
  "set_row_height r h ws = Inr (ws\<lparr>row_heights := AList.update r h (row_heights ws)\<rparr>)"

definition add_conditional_formatting ::
  "pystr \<Rightarrow> cell_is_rule \<Rightarrow> worksheet \<Rightarrow> error + worksheet" where
  "add_conditional_formatting range_string rule ws =
     Inr (ws\<lparr>conditional_formatting := conditional_formatting ws @ [(range_string, rule)]\<rparr>)"

definition CellIsRule :: "pystr \<Rightarrow> pystr list \<Rightarrow> pattern_fill \<Rightarrow> cell_is_rule" where
  "CellIsRule opr fml fl = \<lparr>operator = opr, formula = fml, rule_fill = fl\<rparr>"

text \<open>
  \<^verbatim>\<open>ws.dimensions\<close>: the smallest rectangle that holds every cell, \<^verbatim>\<open>A1:A1\<close> for a sheet
  with no cell.
\<close>

definition dimensions :: "worksheet \<Rightarrow> error + pystr" where
  "dimensions ws =
     (if cells ws = [] then Inr (lit ''A1:A1'')
      else
        let rows = map (fst \<circ> fst) (cells ws); cols = map (snd \<circ> fst) (cells ws) in
        case get_column_letter (Min (set cols)) of
          Inl e \<Rightarrow> Inl e
        | Inr lo \<Rightarrow>
            (case get_column_letter (Max (set cols)) of
               Inl e \<Rightarrow> Inl e
             | Inr hi \<Rightarrow>
                 Inr (lo @ str_nat (Min (set rows)) @ lit '':'' @ hi @ str_nat (Max (set rows)))))"

definition set_auto_filter_to_dimensions :: "worksheet \<Rightarrow> error + worksheet" where
  "set_auto_filter_to_dimensions ws =
     (case dimensions ws of
        Inl e \<Rightarrow> Inl e
      | Inr d \<Rightarrow> Inr (ws\<lparr>auto_filter_ref := Some d\<rparr>))"

text \<open>
  \<^verbatim>\<open>ws.add_table(table)\<close>. The library refuses a name the workbook already uses; the four
  table names of the script are distinct literals, so the model adds the table.
\<close>

definition add_table :: "table \<Rightarrow> worksheet \<Rightarrow> error + worksheet" where
  "add_table tb ws = Inr (ws\<lparr>tables := tables ws @ [tb]\<rparr>)"

subsection \<open>Workbooks (openpyxl.workbook)\<close>

text \<open>A clock reading (the value of \<^verbatim>\<open>datetime.now\<close>), and a calendar date.\<close>

type_synonym datetime = nat

record date =
  year :: nat
  month :: nat
  day :: nat

definition zfill :: "nat \<Rightarrow> pystr \<Rightarrow> pystr" where
  "zfill w ds = replicate (w - length ds) 48 @ ds"

definition isoformat :: "date \<Rightarrow> pystr" where
  "isoformat d =
     zfill 4 (str_nat (year d)) @ lit ''-'' @ zfill 2 (str_nat (month d)) @ lit ''-''
       @ zfill 2 (str_nat (day d))"

text \<open>
  A workbook: its sheets in order, and the two document properties the script assigns
  (\<open>None\<close> until it does).
\<close>

record workbook =
  sheets :: "worksheet list"
  properties_title :: "pystr option"
  properties_created :: "datetime option"

text \<open>\<^verbatim>\<open>Workbook()\<close> holds one sheet, titled \<^verbatim>\<open>Sheet\<close>, which is \<^verbatim>\<open>wb.active\<close> (index 0).\<close>

definition Workbook :: workbook where
  "Workbook =
     \<lparr>sheets = [new_worksheet (lit ''Sheet'')], properties_title = None,
      properties_created = None\<rparr>"

text \<open>
  A worksheet variable of the script is a reference into the workbook: the index of the
  sheet. \<open>on_sheet\<close> runs a step on the sheet a reference names.
\<close>

definition create_sheet :: "pystr \<Rightarrow> workbook \<Rightarrow> nat \<times> workbook" where
  "create_sheet t wb = (length (sheets wb), wb\<lparr>sheets := sheets wb @ [new_worksheet t]\<rparr>)"

definition on_sheet :: "nat \<Rightarrow> (worksheet \<Rightarrow> error + worksheet) \<Rightarrow> workbook \<Rightarrow> error + workbook" where
  "on_sheet ws f wb =
     (if ws < length (sheets wb)
      then (case f (sheets wb ! ws) of
              Inl e \<Rightarrow> Inl e
            | Inr sh \<Rightarrow> Inr (wb\<lparr>sheets := (sheets wb)[ws := sh]\<rparr>))
      else Inl NoSuchSheet)"

subsection \<open>The file system (pathlib)\<close>

text \<open>
  A path is the list of its components below the root, the file system a map from paths
  to nodes; the root is always a directory. A file holds text (the decoded characters) or
  a saved workbook.
\<close>

type_synonym path = "pystr list"

datatype file_data = Text pystr | Xlsx workbook

datatype node = Directory | File file_data

type_synonym filesystem = "path \<Rightarrow> node option"

definition node_at :: "filesystem \<Rightarrow> path \<Rightarrow> node option" where
  "node_at fs p = (if p = [] then Some Directory else fs p)"

definition path_exists :: "filesystem \<Rightarrow> path \<Rightarrow> bool" where
  "path_exists fs p = (node_at fs p \<noteq> None)"

definition is_dir :: "filesystem \<Rightarrow> path \<Rightarrow> bool" where
  "is_dir fs p = (node_at fs p = Some Directory)"

definition parent :: "path \<Rightarrow> path" where
  "parent p = butlast p"

definition path_str :: "path \<Rightarrow> pystr" where
  "path_str p = (if p = [] then lit ''/'' else concat (map (\<lambda>c. lit ''/'' @ c) p))"

text \<open>
  Reading in text mode translates the line ends \<^verbatim>\<open>\r\n\<close> and \<^verbatim>\<open>\r\<close> to \<^verbatim>\<open>\n\<close> (universal
  newlines, the default of \<^verbatim>\<open>open\<close>).
\<close>

fun universal_newlines :: "pystr \<Rightarrow> pystr" where
  "universal_newlines [] = []"
| "universal_newlines [c] = (if c = 13 then [10] else [c])"
| "universal_newlines (c # d # cs) =
     (if c = 13 \<and> d = 10 then 10 # universal_newlines cs
      else if c = 13 then 10 # universal_newlines (d # cs)
      else c # universal_newlines (d # cs))"

definition open_text :: "filesystem \<Rightarrow> path \<Rightarrow> error + pystr" where
  "open_text fs p =
     (case node_at fs p of
        None \<Rightarrow> Inl (FileNotFoundError (path_str p))
      | Some Directory \<Rightarrow> Inl IsADirectoryError
      | Some (File (Xlsx _)) \<Rightarrow> Inl UnicodeDecodeError
      | Some (File (Text t)) \<Rightarrow> Inr t)"

text \<open>\<^verbatim>\<open>os.mkdir\<close>: one new directory, in a parent that is a directory.\<close>

definition os_mkdir :: "path \<Rightarrow> filesystem \<Rightarrow> error + filesystem" where
  "os_mkdir p fs =
     (if path_exists fs p then Inl FileExistsError
      else (case node_at fs (parent p) of
              None \<Rightarrow> Inl (FileNotFoundError (path_str p))
            | Some (File _) \<Rightarrow> Inl NotADirectoryError
            | Some Directory \<Rightarrow> Inr (fs(p \<mapsto> Directory))))"

text \<open>
  \<^verbatim>\<open>Path.mkdir(parents, exist_ok)\<close>, as pathlib writes it: try \<^verbatim>\<open>os.mkdir\<close>; on a missing
  parent make the parents first and try once more; on any other OS error give in only
  when \<open>exist_ok\<close> holds and the path is a directory.
\<close>

function mkdir :: "bool \<Rightarrow> bool \<Rightarrow> path \<Rightarrow> filesystem \<Rightarrow> error + filesystem" where
  "mkdir parents exist_ok p fs =
     (case os_mkdir p fs of
        Inr fs' \<Rightarrow> Inr fs'
      | Inl (FileNotFoundError m) \<Rightarrow>
          (if \<not> parents \<or> parent p = p then Inl (FileNotFoundError m)
           else (case mkdir True True (parent p) fs of
                   Inl e \<Rightarrow> Inl e
                 | Inr fs' \<Rightarrow> mkdir False exist_ok p fs'))
      | Inl e \<Rightarrow> (if \<not> exist_ok \<or> \<not> is_dir fs p then Inl e else Inr fs))"
  by pat_completeness auto
termination
proof (relation "measure (\<lambda>(parents, exist_ok, p, fs). 2 * length p + (if parents then 1 else 0))")
  show "wf (measure (\<lambda>(parents, exist_ok, p, fs). 2 * length p + (if parents then 1 else (0::nat))))"
    by simp
next
  fix parents exist_ok :: bool and p :: path and fs :: filesystem and a x1
  assume "\<not> (\<not> parents \<or> parent p = p)"
  then have "p \<noteq> []" by (auto simp: parent_def)
  then have "length (butlast p) < length p" by (cases p rule: rev_cases) auto
  then show "((True, True, parent p, fs), parents, exist_ok, p, fs)
      \<in> measure (\<lambda>(parents, exist_ok, p, fs). 2 * length p + (if parents then 1 else 0))"
    by (simp add: parent_def)
next
  fix parents exist_ok :: bool and p :: path and fs :: filesystem and a x1 x2
  assume "\<not> (\<not> parents \<or> parent p = p)"
  then show "((False, exist_ok, p, x2), parents, exist_ok, p, fs)
      \<in> measure (\<lambda>(parents, exist_ok, p, fs). 2 * length p + (if parents then 1 else 0))"
    by simp
qed

declare mkdir.simps [simp del]

text \<open>
  \<^verbatim>\<open>wb.save(path)\<close> opens the file for writing, which makes or replaces it, and writes the
  workbook.
\<close>

definition wb_save :: "workbook \<Rightarrow> path \<Rightarrow> filesystem \<Rightarrow> error + filesystem" where
  "wb_save wb p fs =
     (if is_dir fs p then Inl IsADirectoryError
      else (case node_at fs (parent p) of
              None \<Rightarrow> Inl (FileNotFoundError (path_str p))
            | Some (File _) \<Rightarrow> Inl NotADirectoryError
            | Some Directory \<Rightarrow> Inr (fs(p \<mapsto> File (Xlsx wb)))))"

subsection \<open>Reading the CSV (csv.DictReader)\<close>

text \<open>
  \<^verbatim>\<open>csv.reader\<close> turns the text of a file into rows of fields (a blank line gives the empty
  row), or raises \<^verbatim>\<open>csv.Error\<close> (a field above the size limit, for one); it is a parameter
  \<open>reader\<close> of the model, with \<open>None\<close> for the text it raises on. The script makes the list of
  all records before it uses one, so an error at any row ends the run.
  \<^verbatim>\<open>DictReader\<close> takes the first row as the
  field names and makes a dictionary of every later row that is not empty: the fields
  under their names (a repeated name keeps its first place and its last value), the
  surplus of a longer row as a list under the key \<^verbatim>\<open>None\<close>, and \<^verbatim>\<open>None\<close> under the names a
  shorter row does not reach. A dictionary is an association list in insertion order.
\<close>

type_synonym csv_record = "(pystr option \<times> pyval) list"

definition dict_row :: "pystr list \<Rightarrow> pystr list \<Rightarrow> csv_record" where
  "dict_row fieldnames row =
     (let d = AList.updates (map Some fieldnames) (map PStr row) [];
          lf = length fieldnames;
          lr = length row
      in if lf < lr then AList.update None (PList (drop lf row)) d
         else if lf > lr then fold (\<lambda>key. AList.update (Some key) PNone) (drop lr fieldnames) d
         else d)"

definition DictReader :: "pystr list list \<Rightarrow> csv_record list" where
  "DictReader rows =
     (case rows of
        [] \<Rightarrow> []
      | fieldnames # rest \<Rightarrow> map (dict_row fieldnames) (filter (\<lambda>row. row \<noteq> []) rest))"

text \<open>\<^verbatim>\<open>item.get(h, default)\<close> and \<^verbatim>\<open>list(item.keys())\<close>.\<close>

definition dict_get :: "csv_record \<Rightarrow> pystr option \<Rightarrow> pyval \<Rightarrow> pyval" where
  "dict_get item h dflt = (case map_of item h of None \<Rightarrow> dflt | Some v \<Rightarrow> v)"

definition keys :: "csv_record \<Rightarrow> pystr option list" where
  "keys item = map fst item"

text \<open>A key as a cell value: a field name is a string, the key \<^verbatim>\<open>None\<close> is \<^verbatim>\<open>None\<close>.\<close>

definition key_value :: "pystr option \<Rightarrow> pyval" where
  "key_value k = (case k of None \<Rightarrow> PNone | Some name \<Rightarrow> PStr name)"

subsection \<open>The script\<close>

definition read_text :: "filesystem \<Rightarrow> path \<Rightarrow> error + pystr" where
  "read_text fs p =
     (case open_text fs p of Inl e \<Rightarrow> Inl e | Inr t \<Rightarrow> Inr (universal_newlines t))"

definition read_support_cases ::
  "(pystr \<Rightarrow> pystr list list option) \<Rightarrow> filesystem \<Rightarrow> path \<Rightarrow> error + csv_record list" where
  "read_support_cases reader fs csv_path =
     (case open_text fs csv_path of
        Inl e \<Rightarrow> Inl e
      | Inr t \<Rightarrow> (case reader t of None \<Rightarrow> Inl CsvError | Some rows \<Rightarrow> Inr (DictReader rows)))"

fun set_col_widths :: "(nat \<times> nat) list \<Rightarrow> worksheet \<Rightarrow> error + worksheet" where
  "set_col_widths [] ws = Inr ws"
| "set_col_widths ((col_idx, width) # widths) ws =
     (case get_column_letter col_idx of
        Inl e \<Rightarrow> Inl e
      | Inr letter \<Rightarrow>
          set_col_widths widths
            (ws\<lparr>column_widths := AList.update letter width (column_widths ws)\<rparr>))"

definition apply_table ::
  "pystr \<Rightarrow> nat \<Rightarrow> nat \<Rightarrow> nat \<Rightarrow> nat \<Rightarrow> worksheet \<Rightarrow> error + worksheet" where
  "apply_table table_name start_row start_col end_row end_col ws =
     (case get_column_letter start_col of
        Inl e \<Rightarrow> Inl e
      | Inr a \<Rightarrow>
          (case get_column_letter end_col of
             Inl e \<Rightarrow> Inl e
           | Inr b \<Rightarrow>
               add_table
                 \<lparr>displayName = table_name,
                  ref = a @ str_nat start_row @ lit '':'' @ b @ str_nat end_row,
                  tableStyleInfo =
                    Some \<lparr>style_name = lit ''TableStyleMedium9'', showFirstColumn = False,
                          showLastColumn = False, showRowStripes = True,
                          showColumnStripes = False\<rparr>\<rparr>
                 ws))"

text \<open>The styles \<^verbatim>\<open>build_workbook\<close> shares between the sheets.\<close>

definition header_fill :: pattern_fill where
  "header_fill = PatternFill (lit ''solid'') (lit ''F2F2F2'')"

definition header_font :: font where
  "header_font = Font None True"

definition wrap :: alignment where
  "wrap = Alignment None (Some (lit ''top'')) (Some True)"

text \<open>The script's \<^verbatim>\<open>top\<close> (the name \<open>top\<close> is the greatest element of a lattice in HOL).\<close>

definition top_alignment :: alignment where
  "top_alignment = Alignment None (Some (lit ''top'')) None"

text \<open>
  \<^verbatim>\<open>for c in range(1, n + 1): cell = ws.cell(row=1, column=c); cell.fill = header_fill;
  cell.font = header_font; cell.alignment = a\<close>.
\<close>

definition style_header :: "nat \<Rightarrow> alignment \<Rightarrow> (worksheet \<Rightarrow> error + worksheet) list" where
  "style_header n a =
     concat (map (\<lambda>c. [style_cell 1 c (set_fill header_fill),
                        style_cell 1 c (set_font header_font),
                        style_cell 1 c (set_alignment a)])
                 [1..<Suc n])"

definition header_alignment :: alignment where
  "header_alignment = Alignment (Some (lit ''center'')) (Some (lit ''top'')) (Some True)"

paragraph \<open>Sheet: Overview\<close>

definition overview_steps :: "pystr \<Rightarrow> date \<Rightarrow> (worksheet \<Rightarrow> error + worksheet) list" where
  "overview_steps architecture_md assessment_date =
     [set_title (lit ''Overview''),
      set_freeze_panes (lit ''A6''),
      ws_setitem (lit ''A1'') (PStr (lit ''Well-Architected Framework (WAF) Assessment'')),
      style_item (lit ''A1'') (set_font (Font (Some 16) True)),
      ws_setitem (lit ''A3'') (PStr (lit ''Assessment Date'')),
      ws_setitem (lit ''B3'') (PStr (isoformat assessment_date)),
      ws_setitem (lit ''A4'') (PStr (lit ''Architecture Summary'')),
      ws_setitem (lit ''B4'')
        (PStr (lit ''Hub-and-spoke AKS with Application Gateway '' @ rightwards_arrow
               @ lit '' ILB '' @ rightwards_arrow
               @ lit '' Traefik, Private Link, Azure Firewall, Bastion, and Azure Monitor''))]
     @ map (\<lambda>addr. style_item addr (set_font (Font None True))) [lit ''A3'', lit ''A4'']
     @ [ws_setitem (lit ''A6'') (PStr (lit ''Source Architecture Document (excerpt)'')),
        style_item (lit ''A6'') (set_font (Font None True)),
        ws_setitem (lit ''A7'') (PStr architecture_md),
        style_item (lit ''A7'') (set_alignment (Alignment None (Some (lit ''top'')) (Some True))),
        set_col_widths [(1, 28), (2, 120)],
        set_row_height 7 320]"

paragraph \<open>Sheet: Scores\<close>

definition scores :: "(pystr \<times> int \<times> pystr) list" where
  "scores =
     [(lit ''Reliability'', 68, lit ''Fair''),
      (lit ''Security'', 74, lit ''Good''),
      (lit ''Cost Optimization'', 64, lit ''Fair''),
      (lit ''Operational Excellence'', 66, lit ''Fair''),
      (lit ''Performance Efficiency'', 78, lit ''Good''),
      (lit ''Overall'', 70, lit ''Good baseline, needs hardening'')]"

definition score_row :: "pystr \<times> int \<times> pystr \<Rightarrow> pyval list" where
  "score_row row = (case row of (pillar, score, status) \<Rightarrow> [PStr pillar, PInt score, PStr status])"

definition score_range :: pystr where
  "score_range = lit ''B2:B'' @ str_nat (1 + length scores)"

definition scores_steps :: "(worksheet \<Rightarrow> error + worksheet) list" where
  "scores_steps =
     [set_freeze_panes (lit ''A2''),
      ws_append [PStr (lit ''Pillar''), PStr (lit ''Score''), PStr (lit ''Status'')]]
     @ style_header 3 (Alignment (Some (lit ''center'')) None None)
     @ map (\<lambda>row. ws_append (score_row row)) scores
     @ [set_col_widths [(1, 28), (2, 10), (3, 35)]]
     @ concat (map (\<lambda>r. [style_cell r 1 (set_alignment top_alignment),
                          style_cell r 2 (set_alignment (Alignment (Some (lit ''center'')) None None)),
                          style_cell r 3 (set_alignment top_alignment)])
                   [2..<2 + length scores])
     @ [add_conditional_formatting score_range
          (CellIsRule (lit ''lessThan'') [lit ''60''] (PatternFill (lit ''solid'') (lit ''F8D7DA''))),
        add_conditional_formatting score_range
          (CellIsRule (lit ''between'') [lit ''60'', lit ''79'']
             (PatternFill (lit ''solid'') (lit ''FFF3CD''))),
        add_conditional_formatting score_range
          (CellIsRule (lit ''greaterThanOrEqual'') [lit ''80'']
             (PatternFill (lit ''solid'') (lit ''D1E7DD''))),
        apply_table (lit ''ScoresTable'') 1 1 (1 + length scores) 3]"

paragraph \<open>Sheet: Recommendations\<close>

definition rec_headers :: "pystr list" where
  "rec_headers =
     [lit ''ID'',
      lit ''Recommendation'',
      lit ''Primary Pillar(s)'',
      lit ''Why / Evidence'',
      lit ''Risk if not addressed'',
      lit ''Priority'',
      lit ''Estimated Effort'',
      lit ''Related Support Cases'',
      lit ''Key Docs'']"

record recommendation =
  rec_id :: pystr
  rec_title :: pystr
  pillars :: pystr
  why :: pystr
  risk :: pystr
  priority :: pystr
  effort :: pystr
  cases :: pystr
  docs :: pystr

definition recommendations :: "recommendation list" where
  "recommendations =
     [\<lparr>rec_id = lit ''REC-01'',
        rec_title = lit ''Standardize ingress routing and health probes end-to-end (App Gateway '' @ rightwards_arrow @ lit '' ILB '' @ rightwards_arrow @ lit '' Traefik)'',
        pillars = lit ''Reliability, Operational Excellence'',
        why = lit ''Repeated ingress/probe/routing misconfig issues leading to 502s and backend unhealthy signals.'',
        risk = lit ''Intermittent or complete service outage; slow triage due to multi-layer routing.'',
        priority = lit ''High'',
        effort = lit ''1'' @ en_dash @ lit ''3 days'',
        cases = lit ''120012346; 120012353'',
        docs = lit ''https://learn.microsoft.com/azure/application-gateway/application-gateway-probe-overview | https://learn.microsoft.com/azure/architecture/reference-architectures/containers/aks-baseline''\<rparr>,
      \<lparr>rec_id = lit ''REC-02'',
        rec_title = lit ''Automate TLS certificate lifecycle for Application Gateway using Key Vault'',
        pillars = lit ''Reliability, Security'',
        why = lit ''Certificate expiry caused TLS handshake failures and outage of public endpoints.'',
        risk = lit ''Public endpoint downtime and incident escalation during renewal windows.'',
        priority = lit ''Critical'',
        effort = lit ''0.5'' @ en_dash @ lit ''2 days'',
        cases = lit ''120012347'',
        docs = lit ''https://learn.microsoft.com/azure/key-vault/certificates/about-certificates | https://learn.microsoft.com/azure/application-gateway/key-vault-certs''\<rparr>,
      \<lparr>rec_id = lit ''REC-03'',
        rec_title = lit ''Harden Private Link + Private DNS zone management (Key Vault, ACR)'',
        pillars = lit ''Security, Reliability'',
        why = lit ''Private Endpoint access failures caused secret retrieval and DNS resolution issues.'',
        risk = lit ''Workloads unable to pull images or read secrets; cascading failures.'',
        priority = lit ''High'',
        effort = lit ''1'' @ en_dash @ lit ''2 days'',
        cases = lit ''120012348'',
        docs = lit ''https://learn.microsoft.com/azure/private-link/private-endpoint-dns | https://learn.microsoft.com/azure/key-vault/general/private-link-service''\<rparr>,
      \<lparr>rec_id = lit ''REC-04'',
        rec_title = lit ''Make monitoring egress explicit and continuously validated through Azure Firewall'',
        pillars = lit ''Operational Excellence, Reliability'',
        why = lit ''Firewall misconfig blocked Azure Monitor/Prometheus endpoints; telemetry gaps.'',
        risk = lit ''Reduced observability during incidents; delayed detection of failures.'',
        priority = lit ''High'',
        effort = lit ''1'' @ en_dash @ lit ''3 days'',
        cases = lit ''120012350; 120012354'',
        docs = lit ''https://learn.microsoft.com/azure/firewall/overview | https://learn.microsoft.com/azure/azure-monitor/containers/kubernetes-monitoring-enable''\<rparr>,
      \<lparr>rec_id = lit ''REC-05'',
        rec_title = lit ''Implement AKS subnet/IP capacity planning and autoscaler guardrails'',
        pillars = lit ''Reliability, Performance Efficiency'',
        why = lit ''Autoscaling failures due to subnet IP range constraints.'',
        risk = lit ''Scale-out fails; pods stuck Pending; degraded performance/availability.'',
        priority = lit ''High'',
        effort = lit ''0.5'' @ en_dash @ lit ''2 days'',
        cases = lit ''120012351'',
        docs = lit ''https://learn.microsoft.com/azure/aks/cluster-autoscaler | https://learn.microsoft.com/azure/aks/concepts-network''\<rparr>,
      \<lparr>rec_id = lit ''REC-06'',
        rec_title = lit ''Reduce configuration drift via IaC + policy guardrails + runbooks'',
        pillars = lit ''Operational Excellence, Security'',
        why = lit ''Pattern of incidents rooted in configuration mistakes (Bastion association, probes, routing, rules).'',
        risk = lit ''Recurring outages; inconsistent environments; slower recovery.'',
        priority = lit ''High'',
        effort = lit ''1'' @ en_dash @ lit ''3 weeks (incremental)'',
        cases = lit ''120012352; 120012346; 120012353; 120012350'',
        docs = lit ''https://learn.microsoft.com/azure/governance/policy/overview | https://learn.microsoft.com/azure/well-architected/''\<rparr>]"

definition recommendation_row :: "recommendation \<Rightarrow> pyval list" where
  "recommendation_row rec =
     [PStr (rec_id rec), PStr (rec_title rec), PStr (pillars rec), PStr (why rec),
      PStr (risk rec), PStr (priority rec), PStr (effort rec), PStr (cases rec),
      PStr (docs rec)]"

definition recommendations_steps :: "(worksheet \<Rightarrow> error + worksheet) list" where
  "recommendations_steps =
     [set_freeze_panes (lit ''A2''),
      ws_append (map PStr rec_headers)]
     @ style_header (length rec_headers) header_alignment
     @ map (\<lambda>rec. ws_append (recommendation_row rec)) recommendations
     @ align_rows 2 (1 + length recommendations) 1 (length rec_headers) wrap
     @ [set_col_widths
          [(1, 10), (2, 46), (3, 26), (4, 38), (5, 34), (6, 10), (7, 16), (8, 22), (9, 60)],
        apply_table (lit ''RecommendationsTable'') 1 1 (1 + length recommendations)
          (length rec_headers)]"

paragraph \<open>Sheet: Roadmap\<close>

definition roadmap :: "(pystr \<times> pystr \<times> pystr) list" where
  "roadmap =
     [(lit ''Next 7 days'',
       lit ''Stability quick wins'',
       lit ''Automate cert renewal + alerts (REC-02); standardize probes/routing (REC-01); validate monitoring egress (REC-04)''),
      (lit ''Next 30 days'',
       lit ''Platform hardening'',
       lit ''Automate Private DNS/Private Link zone linking (REC-03); add subnet/IP guardrails and alerts (REC-05); add telemetry-drop alerting (REC-04)''),
      (lit ''Next 90 days'',
       lit ''Operational maturity'',
       lit ''Expand IaC coverage and policy guardrails; publish runbooks and do game-day drills (REC-06)'')]"

definition roadmap_row :: "pystr \<times> pystr \<times> pystr \<Rightarrow> pyval list" where
  "roadmap_row r = (case r of (horizon, focus, actions) \<Rightarrow> [PStr horizon, PStr focus, PStr actions])"

definition roadmap_steps :: "(worksheet \<Rightarrow> error + worksheet) list" where
  "roadmap_steps =
     [set_freeze_panes (lit ''A2''),
      ws_append [PStr (lit ''Horizon''), PStr (lit ''Focus''), PStr (lit ''Actions'')]]
     @ style_header 3 header_alignment
     @ map (\<lambda>r. ws_append (roadmap_row r)) roadmap
     @ align_rows 2 (1 + length roadmap) 1 3 wrap
     @ [set_col_widths [(1, 14), (2, 22), (3, 110)],
        apply_table (lit ''RoadmapTable'') 1 1 (1 + length roadmap) 3]"

paragraph \<open>Sheet: Support Cases\<close>

definition support_widths :: "(nat \<times> nat) list" where
  "support_widths = [(1, 12), (2, 44), (3, 12), (4, 28), (5, 60), (6, 56), (7, 56), (8, 28)]"

definition support_cases_steps :: "csv_record list \<Rightarrow> (worksheet \<Rightarrow> error + worksheet) list" where
  "support_cases_steps support_cases =
     [set_freeze_panes (lit ''A2'')]
     @ (if support_cases \<noteq> [] then
          (let headers = keys (hd support_cases) in
           [ws_append (map key_value headers)]
           @ style_header (length headers) header_alignment
           @ map (\<lambda>item. ws_append (map (\<lambda>h. dict_get item h (PStr [])) headers)) support_cases
           @ align_rows 2 (1 + length support_cases) 1 (length headers) wrap
           @ [set_col_widths support_widths,
              apply_table (lit ''SupportCasesTable'') 1 1 (1 + length support_cases)
                (length headers),
              set_auto_filter_to_dimensions])
        else [])"

paragraph \<open>build_workbook and main\<close>

text \<open>
  \<^verbatim>\<open>ws = wb.create_sheet(title)\<close> and the statements that fill \<open>ws\<close>.
\<close>

definition sheet_section ::
  "pystr \<Rightarrow> (worksheet \<Rightarrow> error + worksheet) list \<Rightarrow> workbook \<Rightarrow> error + workbook" where
  "sheet_section t steps wb =
     (case create_sheet t wb of (ws, wb') \<Rightarrow> on_sheet ws (run_steps steps) wb')"

text \<open>
  Lines 56 to 328: the workbook in memory, from the two inputs, the date and the clock
  reading that becomes the \<^verbatim>\<open>created\<close> property.
\<close>

definition assemble_workbook ::
  "pystr \<Rightarrow> csv_record list \<Rightarrow> date \<Rightarrow> datetime \<Rightarrow> error + workbook" where
  "assemble_workbook architecture_md support_cases assessment_date now =
     run_steps
       [on_sheet 0 (run_steps (overview_steps architecture_md assessment_date)),
        sheet_section (lit ''Scores'') scores_steps,
        sheet_section (lit ''Recommendations'') recommendations_steps,
        sheet_section (lit ''Roadmap'') roadmap_steps,
        sheet_section (lit ''SupportCases'') (support_cases_steps support_cases)]
       (Workbook\<lparr>properties_title := Some (lit ''Azure WAF Assessment''),
                  properties_created := Some now\<rparr>)"

text \<open>
  \<open>build_workbook\<close> returns the file system after the run and the path it returns. \<open>now\<close>
  is what the clock reads during the run.
\<close>

definition build_workbook ::
  "(pystr \<Rightarrow> pystr list list option) \<Rightarrow> datetime \<Rightarrow> filesystem \<Rightarrow> path \<Rightarrow> path \<Rightarrow> path \<Rightarrow> date
     \<Rightarrow> error + filesystem \<times> path" where
  "build_workbook reader now fs architecture_md_path support_cases_csv_path output_xlsx_path
       assessment_date =
     (case read_text fs architecture_md_path of
        Inl e \<Rightarrow> Inl e
      | Inr architecture_md \<Rightarrow>
     (case read_support_cases reader fs support_cases_csv_path of
        Inl e \<Rightarrow> Inl e
      | Inr support_cases \<Rightarrow>
     (case assemble_workbook architecture_md support_cases assessment_date now of
        Inl e \<Rightarrow> Inl e
      | Inr wb \<Rightarrow>
     (case mkdir True True (parent output_xlsx_path) fs of
        Inl e \<Rightarrow> Inl e
      | Inr fs' \<Rightarrow>
     (case wb_save wb output_xlsx_path fs' of
        Inl e \<Rightarrow> Inl e
      | Inr fs'' \<Rightarrow> Inr (fs'', output_xlsx_path))))))"

text \<open>
  \<open>main\<close>: \<open>ROOT\<close> is the directory two levels above the script, \<open>today\<close> the value of
  \<^verbatim>\<open>date.today()\<close>. The result is the file system after the run and the line printed.
\<close>

definition mid :: "path \<Rightarrow> path" where
  "mid ROOT = ROOT @ [lit ''.github'', lit ''skills'', lit ''waf-assessment'', lit ''mid'']"

definition architecture_md_path :: "path \<Rightarrow> path" where
  "architecture_md_path ROOT = mid ROOT @ [lit ''architecture_document.md'']"

definition support_cases_csv_path :: "path \<Rightarrow> path" where
  "support_cases_csv_path ROOT = mid ROOT @ [lit ''azure_support_cases.csv'']"

definition output_xlsx_path :: "path \<Rightarrow> path" where
  "output_xlsx_path ROOT = mid ROOT @ [lit ''waf_assessment_results.xlsx'']"

definition main ::
  "(pystr \<Rightarrow> pystr list list option) \<Rightarrow> datetime \<Rightarrow> date \<Rightarrow> path \<Rightarrow> filesystem
     \<Rightarrow> error + filesystem \<times> pystr" where
  "main reader now today ROOT fs =
     (let assessment_date = today
      in if \<not> path_exists fs (architecture_md_path ROOT)
         then Inl (FileNotFoundError
                     (lit ''Missing architecture doc: '' @ path_str (architecture_md_path ROOT)))
         else if \<not> path_exists fs (support_cases_csv_path ROOT)
         then Inl (FileNotFoundError
                     (lit ''Missing support cases CSV: ''
                      @ path_str (support_cases_csv_path ROOT)))
         else (case build_workbook reader now fs (architecture_md_path ROOT)
                      (support_cases_csv_path ROOT) (output_xlsx_path ROOT) assessment_date of
                 Inl e \<Rightarrow> Inl e
               | Inr (fs', out) \<Rightarrow> Inr (fs', path_str out)))"

section \<open>Observations\<close>

text \<open>
  What the properties below observe of a sheet and of a run, and the predicates their
  proofs use.
\<close>

text \<open>The value of a cell of a sheet (\<^verbatim>\<open>None\<close> where the sheet has no cell).\<close>

definition value_at :: "worksheet \<Rightarrow> nat \<times> nat \<Rightarrow> pyval" where
  "value_at ws rc = (case map_of (cells ws) rc of None \<Rightarrow> PNone | Some cl \<Rightarrow> cell_value cl)"

text \<open>The coordinates at which a sheet has a cell.\<close>

definition cell_keys :: "worksheet \<Rightarrow> (nat \<times> nat) set" where
  "cell_keys ws = fst ` set (cells ws)"

text \<open>A sheet without its cells: what the cell operations leave alone.\<close>

definition decor :: "worksheet \<Rightarrow> worksheet" where
  "decor ws = ws\<lparr>cells := [], current_row := 0\<rparr>"

text \<open>What a cell holds of a value the library accepts: a string is cut to 32767 characters.\<close>

fun stored :: "pyval \<Rightarrow> pyval" where
  "stored (PStr v) = PStr (take 32767 v)"
| "stored v = v"

text \<open>The library accepts the value as a cell value.\<close>

definition storable :: "pyval \<Rightarrow> bool" where
  "storable v = is_ok (bind_value v)"

text \<open>A step keeps an observation of the sheet.\<close>

definition keeps :: "(worksheet \<Rightarrow> 'b) \<Rightarrow> (worksheet \<Rightarrow> error + worksheet) \<Rightarrow> bool" where
  "keeps obs f = (\<forall>ws ws'. f ws = Inr ws' \<longrightarrow> obs ws' = obs ws)"

text \<open>A step that raises on no state.\<close>

definition never_raises :: "('a \<Rightarrow> error + 'a) \<Rightarrow> bool" where
  "never_raises f = (\<forall>x. is_ok (f x))"

text \<open>A change of a cell that keeps its value (a style assignment).\<close>

definition keeps_value :: "(cell \<Rightarrow> cell) \<Rightarrow> bool" where
  "keeps_value g = (\<forall>cl. cell_value (g cl) = cell_value cl)"

text \<open>A style assignment to a cell of the region \<open>K\<close>.\<close>

definition style_in :: "(nat \<times> nat) set \<Rightarrow> (worksheet \<Rightarrow> error + worksheet) \<Rightarrow> bool" where
  "style_in K f = (\<exists>r c g. f = style_cell r c g \<and> (r, c) \<in> K \<and> 1 \<le> r \<and> 1 \<le> c \<and> keeps_value g)"

text \<open>A step that leaves the cells and the current row alone.\<close>

definition grid_step :: "(worksheet \<Rightarrow> error + worksheet) \<Rightarrow> bool" where
  "grid_step f = (\<forall>ws ws'. f ws = Inr ws' \<longrightarrow> cells ws' = cells ws \<and> current_row ws' = current_row ws)"

text \<open>A literal of printable ASCII characters.\<close>

definition printable :: "string \<Rightarrow> bool" where
  "printable cs = list_all (\<lambda>c. 32 \<le> (of_char c :: nat)) cs"

text \<open>The statements of the Scores sheet that follow its data rows.\<close>

definition scores_tail :: "(worksheet \<Rightarrow> error + worksheet) list" where
  "scores_tail =
     [set_col_widths [(1, 28), (2, 10), (3, 35)]]
     @ concat (map (\<lambda>r. [style_cell r 1 (set_alignment top_alignment),
                          style_cell r 2 (set_alignment (Alignment (Some (lit ''center'')) None None)),
                          style_cell r 3 (set_alignment top_alignment)])
                   [2..<2 + length scores])
     @ [add_conditional_formatting score_range
          (CellIsRule (lit ''lessThan'') [lit ''60''] (PatternFill (lit ''solid'') (lit ''F8D7DA''))),
        add_conditional_formatting score_range
          (CellIsRule (lit ''between'') [lit ''60'', lit ''79'']
             (PatternFill (lit ''solid'') (lit ''FFF3CD''))),
        add_conditional_formatting score_range
          (CellIsRule (lit ''greaterThanOrEqual'') [lit ''80'']
             (PatternFill (lit ''solid'') (lit ''D1E7DD''))),
        apply_table (lit ''ScoresTable'') 1 1 (1 + length scores) 3]"

text \<open>The exceptions a step can raise.\<close>

definition raises_in :: "error set \<Rightarrow> ('a \<Rightarrow> error + 'a) \<Rightarrow> bool" where
  "raises_in E f = (\<forall>x e. f x = Inl e \<longrightarrow> e \<in> E)"

text \<open>The exceptions of the spreadsheet library.\<close>

definition library_errors :: "error set" where
  "library_errors = {ValueError, IllegalCharacterError}"

text \<open>The workbook a run has saved at the path it returns.\<close>

definition output_workbook :: "error + filesystem \<times> path \<Rightarrow> workbook option" where
  "output_workbook r =
     (case r of
        Inl _ \<Rightarrow> None
      | Inr (fs', p) \<Rightarrow> (case fs' p of Some (File (Xlsx wb)) \<Rightarrow> Some wb | _ \<Rightarrow> None))"

text \<open>The value of a cell of a sheet of the saved workbook.\<close>

definition output_value :: "error + filesystem \<times> path \<Rightarrow> nat \<Rightarrow> nat \<times> nat \<Rightarrow> pyval option" where
  "output_value r i rc =
     (case output_workbook r of
        None \<Rightarrow> None
      | Some wb \<Rightarrow> if i < length (sheets wb) then Some (value_at (sheets wb ! i) rc) else None)"

text \<open>The characters an XML document can hold: what a workbook file can store of a string.\<close>

definition xml_char :: "nat \<Rightarrow> bool" where
  "xml_char c =
     (c = 9 \<or> c = 10 \<or> c = 13 \<or> (32 \<le> c \<and> c \<le> 55295) \<or> (57344 \<le> c \<and> c \<le> 65533)
      \<or> (65536 \<le> c \<and> c \<le> 1114111))"

text \<open>Text of XML characters only; none of them is a character the library refuses.\<close>

definition legal_text :: "pystr \<Rightarrow> bool" where
  "legal_text v = list_all xml_char v"

text \<open>Rows whose data rows are no longer than the header row, with at most 18278 field names, at most 1048575 data rows, and fields of XML characters.\<close>

definition plain_csv :: "pystr list list \<Rightarrow> bool" where
  "plain_csv rows =
     (case rows of
        [] \<Rightarrow> True
      | fieldnames # rest \<Rightarrow>
          length fieldnames \<le> 18278 \<and> list_all legal_text fieldnames \<and>
          list_all (\<lambda>row. length row \<le> length fieldnames \<and> list_all legal_text row) rest \<and>
          length rest \<le> 1048575)"

text \<open>The pieces of a text between the occurrences of a separator.\<close>

fun split_on :: "nat \<Rightarrow> pystr \<Rightarrow> pystr list" where
  "split_on sep [] = [[]]"
| "split_on sep (c # cs) =
     (if c = sep then [] # split_on sep cs
      else (case split_on sep cs of [] \<Rightarrow> [[c]] | f # fs \<Rightarrow> (c # f) # fs))"

text \<open>The lines of a text; a line feed at the end of the text ends the last line.\<close>

definition csv_lines :: "pystr \<Rightarrow> pystr list" where
  "csv_lines t = (let segs = split_on 10 t in if last segs = [] then butlast segs else segs)"

text \<open>A reader for plain CSV text: on a text without quotation marks (34), carriage returns (13) and NUL, \<^verbatim>\<open>csv.reader\<close> of the default dialect splits each line at the commas, gives the empty row for a blank line, and raises on a field above 131072 characters. The value \<open>None\<close> on a text with one of the three characters stands for no claim about \<^verbatim>\<open>csv.reader\<close>: the samples below hold none.\<close>

definition plain_reader :: "pystr \<Rightarrow> pystr list list option" where
  "plain_reader t =
     (if list_ex (\<lambda>c. c = 34 \<or> c = 13 \<or> c = 0) t then None
      else (let rows = map (\<lambda>l. if l = [] then [] else split_on 44 l) (csv_lines t)
            in if list_all (list_all (\<lambda>f. length f \<le> 131072)) rows then Some rows else None))"

text \<open>The fields of a row with the separator between them.\<close>

fun join :: "nat \<Rightarrow> pystr list \<Rightarrow> pystr" where
  "join sep [] = []"
| "join sep [x] = x"
| "join sep (x # y # ys) = x @ sep # join sep (y # ys)"

text \<open>The text of a CSV file with the given rows, one per line.\<close>

definition csv_text :: "pystr list list \<Rightarrow> pystr" where
  "csv_text rows = concat (map (\<lambda>row. join 44 row @ [10]) rows)"

text \<open>A field that needs no quoting and is within the size limit of \<^verbatim>\<open>csv.reader\<close>.\<close>

definition plain_field :: "pystr \<Rightarrow> bool" where
  "plain_field f =
     (list_all (\<lambda>c. c \<noteq> 44 \<and> c \<noteq> 10 \<and> c \<noteq> 34 \<and> c \<noteq> 13 \<and> c \<noteq> 0) f \<and> length f \<le> 131072)"

text \<open>Rows of plain fields; a row of one empty field is left out, since its line is blank.\<close>

definition plain_rows :: "pystr list list \<Rightarrow> bool" where
  "plain_rows rows = list_all (\<lambda>row. list_all plain_field row \<and> row \<noteq> [[]]) rows"

text \<open>A sample repository: the directory of the inputs holds the two input files.\<close>

definition sample_root :: path where
  "sample_root = [lit ''repo'']"

definition sample_fs :: "pystr \<Rightarrow> pystr \<Rightarrow> filesystem" where
  "sample_fs md csv =
     (\<lambda>p. if p = architecture_md_path sample_root then Some (File (Text md))
          else if p = support_cases_csv_path sample_root then Some (File (Text csv))
          else if prefix p (mid sample_root) then Some Directory
          else None)"

definition sample_date :: date where
  "sample_date = \<lparr>year = 2024, month = 3, day = 9\<rparr>"

text \<open>Sample rows of a CSV file: a header, a full row, a blank line and a short row.\<close>

definition sample_rows :: "pystr list list" where
  "sample_rows =
     [[lit ''ticketnumber'', lit ''title''],
      [lit ''120012346'', lit ''Gateway returns 502''],
      [],
      [lit ''120012347'']]"

text \<open>The titles of the five sheets, in order.\<close>

definition sheet_titles :: "pystr list" where
  "sheet_titles =
     [lit ''Overview'', lit ''Scores'', lit ''Recommendations'', lit ''Roadmap'',
      lit ''SupportCases'']"

text \<open>A run of \<^verbatim>\<open>build_workbook\<close> on the sample file system, with the given markdown text and the CSV text of the given rows.\<close>

definition sample_run :: "pystr \<Rightarrow> pystr list list \<Rightarrow> datetime \<Rightarrow> error + filesystem \<times> path" where
  "sample_run md rows now =
     build_workbook plain_reader now (sample_fs md (csv_text rows))
       (architecture_md_path sample_root) (support_cases_csv_path sample_root)
       (output_xlsx_path sample_root) sample_date"

text \<open>A text of 32768 letters \<^verbatim>\<open>x\<close>: one more than a cell holds.\<close>

definition long_text :: pystr where
  "long_text = replicate 32768 120"


text \<open>A file system that holds nothing but the root directory.\<close>

definition no_files :: filesystem where
  "no_files = (\<lambda>p. None)"

section \<open>Lemmas\<close>

lemma is_ok_simps [simp]: "is_ok (Inr x)" "\<not> is_ok (Inl e)"
  by (simp_all add: is_ok_def)

lemma is_ok_iff: "is_ok r \<longleftrightarrow> (\<exists>x. r = Inr x)"
  by (cases r) auto

lemma run_steps_append:
  "run_steps (fs @ gs) x = (case run_steps fs x of Inl e \<Rightarrow> Inl e | Inr y \<Rightarrow> run_steps gs y)"
  by (induction fs arbitrary: x) (auto split: sum.splits)

lemma run_steps_appendD:
  assumes "run_steps (fs @ gs) x = Inr z"
  obtains y where "run_steps fs x = Inr y" "run_steps gs y = Inr z"
  using assms by (auto simp: run_steps_append split: sum.splits)

lemma run_steps_ConsD:
  assumes "run_steps (f # gs) x = Inr z"
  obtains y where "f x = Inr y" "run_steps gs y = Inr z"
  using assms by (auto split: sum.splits)

lemma keeps_run_steps:
  assumes "\<forall>f\<in>set fs. keeps obs f"
  shows "keeps obs (run_steps fs)"
  unfolding keeps_def
proof (intro allI impI)
  fix ws ws'
  assume "run_steps fs ws = Inr ws'"
  with assms show "obs ws' = obs ws"
  proof (induction fs arbitrary: ws)
    case Nil
    then show ?case by simp
  next
    case (Cons f fs)
    from Cons.prems(2) obtain y where y: "f ws = Inr y" "run_steps fs y = Inr ws'"
      by (rule run_steps_ConsD)
    have "obs y = obs ws" using Cons.prems(1) y(1) by (simp add: keeps_def)
    moreover have "obs ws' = obs y" using Cons.IH[OF _ y(2)] Cons.prems(1) by simp
    ultimately show ?case by simp
  qed
qed

lemma keepsD: "keeps obs f \<Longrightarrow> f ws = Inr ws' \<Longrightarrow> obs ws' = obs ws"
  by (simp add: keeps_def)

lemma total_run_steps:
  assumes "\<forall>f\<in>set fs. never_raises f"
  shows "never_raises (run_steps fs)"
  unfolding never_raises_def
proof
  fix x
  from assms show "is_ok (run_steps fs x)"
  proof (induction fs arbitrary: x)
    case Nil
    then show ?case by simp
  next
    case (Cons f fs)
    from Cons.prems obtain y where y: "f x = Inr y"
      by (auto simp: never_raises_def is_ok_iff)
    have "is_ok (run_steps fs y)" using Cons.IH Cons.prems by simp
    with y show ?case by simp
  qed
qed

lemma totalD: "never_raises f \<Longrightarrow> \<exists>y. f x = Inr y"
  by (simp add: never_raises_def is_ok_iff)

lemma keeps_value_simps [simp]:
  "keeps_value (set_font x)" "keeps_value (set_fill y)" "keeps_value (set_alignment z)"
  by (simp_all add: keeps_value_def set_font_def set_fill_def set_alignment_def)

lemma map_of_None_keys: "map_of xs k = None \<longleftrightarrow> k \<notin> fst ` set xs"
  by (simp add: map_of_eq_None_iff)

lemma decor_fields [simp]:
  "title (decor ws) = title ws" "tables (decor ws) = tables ws"
  "auto_filter_ref (decor ws) = auto_filter_ref ws"
  "conditional_formatting (decor ws) = conditional_formatting ws"
  "freeze_panes (decor ws) = freeze_panes ws"
  "column_widths (decor ws) = column_widths ws"
  "row_heights (decor ws) = row_heights ws"
  by (simp_all add: decor_def)

lemma decor_eq_fields:
  assumes "decor a = decor b"
  shows "title a = title b" "tables a = tables b" "auto_filter_ref a = auto_filter_ref b"
    "conditional_formatting a = conditional_formatting b" "freeze_panes a = freeze_panes b"
    "column_widths a = column_widths b" "row_heights a = row_heights b"
  using decor_fields[of a] decor_fields[of b] assms by simp_all

lemma worksheet_eqI:
  assumes "decor a = decor b" "cells a = cells b" "current_row a = current_row b"
  shows "a = (b::worksheet)"
  using assms by (cases a, cases b) (simp add: decor_def)

subsection \<open>style_cell\<close>

lemma style_cell_existing:
  assumes "(r, c) \<in> cell_keys ws" "style_cell r c g ws = Inr ws'"
  shows "ws' = ws\<lparr>cells := AList.map_entry (r, c) g (cells ws)\<rparr>"
  using assms
  by (auto simp: style_cell_def ws_cell_def cell_keys_def map_of_None_keys
      split: if_splits sum.splits)

lemma map_entry_value:
  assumes "keeps_value g"
  shows "map_option cell_value (map_of (AList.map_entry k g xs) k') = map_option cell_value (map_of xs k')"
  using assms by (induction xs) (auto simp: keeps_value_def)

lemma value_at_map_entry:
  assumes "keeps_value g"
  shows "value_at (ws\<lparr>cells := AList.map_entry k g (cells ws)\<rparr>) = value_at ws"
proof
  fix rc
  have "map_option cell_value (map_of (AList.map_entry k g (cells ws)) rc)
      = map_option cell_value (map_of (cells ws) rc)"
    by (rule map_entry_value[OF assms])
  then show "value_at (ws\<lparr>cells := AList.map_entry k g (cells ws)\<rparr>) rc = value_at ws rc"
    by (auto simp: value_at_def split: option.splits)
qed

lemma style_in_step:
  assumes "style_in K f" "K \<subseteq> cell_keys ws" "f ws = Inr ws'"
  shows "cell_keys ws' = cell_keys ws \<and> current_row ws' = current_row ws
           \<and> value_at ws' = value_at ws \<and> decor ws' = decor ws"
proof -
  from assms(1) obtain r c g where f: "f = style_cell r c g" and rc: "(r, c) \<in> K" "1 \<le> r" "1 \<le> c"
    and g: "keeps_value g" by (auto simp: style_in_def)
  from rc assms(2) have "(r, c) \<in> cell_keys ws" by auto
  from style_cell_existing[OF this assms(3)[unfolded f]]
  have eq: "ws' = ws\<lparr>cells := AList.map_entry (r, c) g (cells ws)\<rparr>" .
  show ?thesis
    unfolding eq using g
    by (simp add: value_at_map_entry cell_keys_def AList.dom_map_entry decor_def)
qed

text \<open>A style assignment never changes a value, whether the cell was there or not.\<close>

lemma style_cell_value:
  assumes "keeps_value g" "style_cell r c g ws = Inr ws'"
  shows "value_at ws' = value_at ws" "decor ws' = decor ws"
proof -
  from assms(2) obtain y where y: "ws_cell r c ws = Inr y"
    and ws': "ws' = y\<lparr>cells := AList.map_entry (r, c) g (cells y)\<rparr>"
    by (auto simp: style_cell_def split: sum.splits)
  have vy: "value_at y = value_at ws"
  proof
    fix k
    show "value_at y k = value_at ws k"
      using y by (auto simp: ws_cell_def value_at_def new_cell_def
          split: if_splits option.splits)
  qed
  have dy: "decor y = decor ws"
    using y by (auto simp: ws_cell_def decor_def split: if_splits)
  show "value_at ws' = value_at ws" unfolding ws' using vy value_at_map_entry[OF assms(1)] by simp
  show "decor ws' = decor ws" unfolding ws' using dy by (simp add: decor_def)
qed

lemma style_cell_total: "1 \<le> r \<Longrightarrow> r \<le> 1048576 \<Longrightarrow> 1 \<le> c \<Longrightarrow> is_ok (style_cell r c g ws)"
  by (simp add: style_cell_def ws_cell_def)

subsection \<open>Values as stored\<close>

lemma bind_value_stored: "bind_value v = Inr v' \<Longrightarrow> v' = stored v"
  by (cases v) (auto simp: check_string_def split: if_splits sum.splits)

lemma storable_bind: "storable v \<Longrightarrow> bind_value v = Inr (stored v)"
  by (cases v) (auto simp: storable_def check_string_def split: if_splits sum.splits)

lemma storable_iff: "storable v \<longleftrightarrow> (\<exists>v'. bind_value v = Inr v')"
  by (simp add: storable_def is_ok_iff)

lemma storable_PStr:
  "storable (PStr v) \<longleftrightarrow> \<not> list_ex illegal_character (take 32767 v)"
  by (simp add: storable_def check_string_def)

lemma storable_simps [simp]: "storable PNone" "storable (PInt n)" "\<not> storable (PList vs)"
  by (simp_all add: storable_def)

lemma stored_short: "length v \<le> 32767 \<Longrightarrow> stored (PStr v) = PStr v"
  by simp

subsection \<open>ws_append\<close>

lemma append_cells_map_of:
  assumes "append_cells R c vs cs = Inr cs'"
  shows "map_of cs' = (\<lambda>k. if fst k = R \<and> c \<le> snd k \<and> snd k < c + length vs
                          then Some (new_cell (stored (vs ! (snd k - c)))) else map_of cs k)"
  using assms
proof (induction vs arbitrary: c cs)
  case Nil
  then show ?case by (auto simp: fun_eq_iff)
next
  case (Cons v vs)
  from Cons.prems obtain v' where v': "bind_value v = Inr v'"
    and rest: "append_cells R (Suc c) vs (AList.update (R, c) (new_cell v') cs) = Inr cs'"
    by (auto split: sum.splits)
  have sv: "v' = stored v" using v' by (rule bind_value_stored)
  show ?case
    unfolding Cons.IH[OF rest]
  proof
    fix k :: "nat \<times> nat"
    show "(if fst k = R \<and> Suc c \<le> snd k \<and> snd k < Suc c + length vs
          then Some (new_cell (stored (vs ! (snd k - Suc c))))
          else map_of (AList.update (R, c) (new_cell v') cs) k) =
         (if fst k = R \<and> c \<le> snd k \<and> snd k < c + length (v # vs)
          then Some (new_cell (stored ((v # vs) ! (snd k - c)))) else map_of cs k)"
    proof (cases "fst k = R \<and> Suc c \<le> snd k \<and> snd k < Suc c + length vs")
      case True
      then have "snd k - c = Suc (snd k - Suc c)" by arith
      with True show ?thesis by simp
    next
      case False
      show ?thesis
      proof (cases "k = (R, c)")
        case True
        then show ?thesis by (simp add: AList.update_conv' sv)
      next
        case ne: False
        then have "\<not> (fst k = R \<and> c \<le> snd k \<and> snd k < c + length (v # vs))"
          using False by (cases k) auto
        with False ne show ?thesis by (cases k) (auto simp: AList.update_conv')
      qed
    qed
  qed
qed

lemma append_cells_ok:
  "is_ok (append_cells R c vs cs) \<longleftrightarrow> list_all storable vs"
proof (induction vs arbitrary: c cs)
  case Nil
  then show ?case by simp
next
  case (Cons v vs)
  show ?case
  proof (cases "bind_value v")
    case (Inl e)
    then show ?thesis by (simp add: storable_def)
  next
    case (Inr v')
    then show ?thesis using Cons.IH by (simp add: storable_def)
  qed
qed

lemma ws_append_ok: "is_ok (ws_append vs ws) \<longleftrightarrow> list_all storable vs"
  using append_cells_ok[of "current_row ws + 1" 1 vs "cells ws"]
  by (auto simp: ws_append_def Let_def is_ok_iff split: sum.splits)

lemma map_of_keys: "fst ` set xs = {k. map_of xs k \<noteq> None}"
  by (auto simp: map_of_eq_None_iff)

lemma ws_append_result:
  assumes "ws_append vs ws = Inr ws'"
  shows "current_row ws' = Suc (current_row ws)"
    and "decor ws' = decor ws"
    and "\<And>k. value_at ws' k = (if fst k = Suc (current_row ws) \<and> 1 \<le> snd k \<and> snd k \<le> length vs
                             then stored (vs ! (snd k - 1)) else value_at ws k)"
    and "cell_keys ws' = cell_keys ws \<union> {Suc (current_row ws)} \<times> {1..length vs}"
proof -
  from assms obtain cs where cs: "append_cells (Suc (current_row ws)) 1 vs (cells ws) = Inr cs"
    and ws': "ws' = ws\<lparr>cells := cs, current_row := Suc (current_row ws)\<rparr>"
    by (auto simp: ws_append_def Let_def split: sum.splits)
  note m = append_cells_map_of[OF cs]
  show "current_row ws' = Suc (current_row ws)" by (simp add: ws')
  show "decor ws' = decor ws" by (simp add: ws' decor_def)
  show "\<And>k. value_at ws' k = (if fst k = Suc (current_row ws) \<and> 1 \<le> snd k \<and> snd k \<le> length vs
                             then stored (vs ! (snd k - 1)) else value_at ws k)"
  proof -
    fix k :: "nat \<times> nat"
    have "(snd k < 1 + length vs) = (snd k \<le> length vs)" by arith
    then show "value_at ws' k = (if fst k = Suc (current_row ws) \<and> 1 \<le> snd k \<and> snd k \<le> length vs
                             then stored (vs ! (snd k - 1)) else value_at ws k)"
      by (simp add: value_at_def ws' m new_cell_def)
  qed
  show "cell_keys ws' = cell_keys ws \<union> {Suc (current_row ws)} \<times> {1..length vs}"
    unfolding cell_keys_def map_of_keys ws' by (auto simp: m split: if_splits)
qed

subsection \<open>A run of appends\<close>

lemma appends_ok:
  "list_all (list_all storable) rows \<Longrightarrow> is_ok (run_steps (map ws_append rows) ws)"
proof (induction rows arbitrary: ws)
  case Nil
  then show ?case by simp
next
  case (Cons vs rows)
  then have "is_ok (ws_append vs ws)" by (simp add: ws_append_ok)
  then obtain y where y: "ws_append vs ws = Inr y" by (auto simp: is_ok_iff)
  with Cons show ?case by simp
qed

lemma appends_okD:
  "is_ok (run_steps (map ws_append rows) ws) \<Longrightarrow> list_all (list_all storable) rows"
proof (induction rows arbitrary: ws)
  case Nil
  then show ?case by simp
next
  case (Cons vs rows)
  from Cons.prems obtain y where y: "ws_append vs ws = Inr y" and r: "is_ok (run_steps (map ws_append rows) y)"
    by (auto split: sum.splits)
  have "list_all storable vs" using y ws_append_ok[of vs ws] by simp
  with Cons.IH[OF r] show ?case by simp
qed

lemma appends_result:
  assumes "run_steps (map ws_append rows) ws = Inr ws'"
  shows "current_row ws' = current_row ws + length rows"
    and "decor ws' = decor ws"
    and "\<And>k. value_at ws' k =
           (if current_row ws < fst k \<and> fst k \<le> current_row ws + length rows
                    \<and> 1 \<le> snd k \<and> snd k \<le> length (rows ! (fst k - Suc (current_row ws)))
                 then stored (rows ! (fst k - Suc (current_row ws)) ! (snd k - 1))
                 else value_at ws k)"
    and "cell_keys ws' =
           cell_keys ws \<union> {k. current_row ws < fst k \<and> fst k \<le> current_row ws + length rows
                    \<and> 1 \<le> snd k \<and> snd k \<le> length (rows ! (fst k - Suc (current_row ws)))}"
proof -
  have "current_row ws' = current_row ws + length rows \<and> decor ws' = decor ws
    \<and> (\<forall>k. value_at ws' k =
           (if current_row ws < fst k \<and> fst k \<le> current_row ws + length rows
                    \<and> 1 \<le> snd k \<and> snd k \<le> length (rows ! (fst k - Suc (current_row ws)))
                 then stored (rows ! (fst k - Suc (current_row ws)) ! (snd k - 1))
                 else value_at ws k))
    \<and> cell_keys ws' =
           cell_keys ws \<union> {k. current_row ws < fst k \<and> fst k \<le> current_row ws + length rows
                    \<and> 1 \<le> snd k \<and> snd k \<le> length (rows ! (fst k - Suc (current_row ws)))}"
    using assms
  proof (induction rows arbitrary: ws)
    case Nil
    then show ?case by auto
  next
    case (Cons vs rows)
    from Cons.prems obtain y where y: "ws_append vs ws = Inr y"
      "run_steps (map ws_append rows) y = Inr ws'"
      by (auto split: sum.splits)
    note a = ws_append_result[OF y(1)]
    note IH = Cons.IH[OF y(2), unfolded a(1)]
    let ?R = "current_row ws"
    have shift: "\<And>k::nat \<times> nat. Suc ?R < fst k \<Longrightarrow> fst k - Suc ?R = Suc (fst k - Suc (Suc ?R))"
      by arith
    have c1: "current_row ws' = ?R + length (vs # rows)" using IH by simp
    have c2: "decor ws' = decor ws" using IH a(2) by simp
    have c3: "\<forall>k. value_at ws' k =
           (if ?R < fst k \<and> fst k \<le> ?R + length (vs # rows)
                    \<and> 1 \<le> snd k \<and> snd k \<le> length ((vs # rows) ! (fst k - Suc ?R))
                 then stored ((vs # rows) ! (fst k - Suc ?R) ! (snd k - 1))
                 else value_at ws k)"
    proof
      fix k :: "nat \<times> nat"
      from IH have v: "value_at ws' k =
           (if Suc ?R < fst k \<and> fst k \<le> Suc ?R + length rows
                    \<and> 1 \<le> snd k \<and> snd k \<le> length (rows ! (fst k - Suc (Suc ?R)))
                 then stored (rows ! (fst k - Suc (Suc ?R)) ! (snd k - 1))
                 else value_at y k)" by blast
      show "value_at ws' k =
           (if ?R < fst k \<and> fst k \<le> ?R + length (vs # rows)
                    \<and> 1 \<le> snd k \<and> snd k \<le> length ((vs # rows) ! (fst k - Suc ?R))
                 then stored ((vs # rows) ! (fst k - Suc ?R) ! (snd k - 1))
                 else value_at ws k)"
      proof (cases "Suc ?R < fst k")
        case True
        with shift[OF True] show ?thesis unfolding v a(3) by auto
      next
        case False
        then show ?thesis unfolding v a(3) by (cases "fst k = Suc ?R") auto
      qed
    qed
    have c4: "cell_keys ws' =
           cell_keys ws \<union> {k. ?R < fst k \<and> fst k \<le> ?R + length (vs # rows)
                    \<and> 1 \<le> snd k \<and> snd k \<le> length ((vs # rows) ! (fst k - Suc ?R))}"
    proof -
      from IH have k: "cell_keys ws' = cell_keys y \<union> {k. Suc ?R < fst k \<and> fst k \<le> Suc ?R + length rows
                    \<and> 1 \<le> snd k \<and> snd k \<le> length (rows ! (fst k - Suc (Suc ?R)))}" by blast
      have "\<And>k::nat \<times> nat. (k \<in> {Suc ?R} \<times> {1..length vs} \<or> (Suc ?R < fst k \<and> fst k \<le> Suc ?R + length rows
                    \<and> 1 \<le> snd k \<and> snd k \<le> length (rows ! (fst k - Suc (Suc ?R))))) =
            (?R < fst k \<and> fst k \<le> ?R + length (vs # rows)
                    \<and> 1 \<le> snd k \<and> snd k \<le> length ((vs # rows) ! (fst k - Suc ?R)))"
      proof -
        fix k :: "nat \<times> nat"
        show "(k \<in> {Suc ?R} \<times> {1..length vs} \<or> (Suc ?R < fst k \<and> fst k \<le> Suc ?R + length rows
                    \<and> 1 \<le> snd k \<and> snd k \<le> length (rows ! (fst k - Suc (Suc ?R))))) =
            (?R < fst k \<and> fst k \<le> ?R + length (vs # rows)
                    \<and> 1 \<le> snd k \<and> snd k \<le> length ((vs # rows) ! (fst k - Suc ?R)))"
        proof (cases "Suc ?R < fst k")
          case True
          with shift[OF True] show ?thesis by (cases k) auto
        next
          case False
          then show ?thesis by (cases k; cases "fst k = Suc ?R") auto
        qed
      qed
      then have "{Suc ?R} \<times> {1..length vs} \<union> {k. Suc ?R < fst k \<and> fst k \<le> Suc ?R + length rows
                    \<and> 1 \<le> snd k \<and> snd k \<le> length (rows ! (fst k - Suc (Suc ?R)))}
          = {k. ?R < fst k \<and> fst k \<le> ?R + length (vs # rows)
                    \<and> 1 \<le> snd k \<and> snd k \<le> length ((vs # rows) ! (fst k - Suc ?R))}"
        unfolding set_eq_iff Un_iff mem_Collect_eq by blast
      then show ?thesis unfolding k a(4) by (simp only: Un_assoc)
    qed
    from c1 c2 c3 c4 show ?case by blast
  qed
  then show "current_row ws' = current_row ws + length rows"
    and "decor ws' = decor ws"
    and "\<And>k. value_at ws' k =
           (if current_row ws < fst k \<and> fst k \<le> current_row ws + length rows
                    \<and> 1 \<le> snd k \<and> snd k \<le> length (rows ! (fst k - Suc (current_row ws)))
                 then stored (rows ! (fst k - Suc (current_row ws)) ! (snd k - 1))
                 else value_at ws k)"
    and "cell_keys ws' =
           cell_keys ws \<union> {k. current_row ws < fst k \<and> fst k \<le> current_row ws + length rows
                    \<and> 1 \<le> snd k \<and> snd k \<le> length (rows ! (fst k - Suc (current_row ws)))}"
    by blast+
qed

lemma grid_stepD:
  assumes "grid_step f" "f ws = Inr ws'"
  shows "cells ws' = cells ws" "current_row ws' = current_row ws"
    "cell_keys ws' = cell_keys ws" "value_at ws' = value_at ws"
  using assms by (auto simp: grid_step_def cell_keys_def value_at_def fun_eq_iff)

lemma set_col_widths_result:
  assumes "set_col_widths widths ws = Inr ws'"
  shows "cells ws' = cells ws \<and> current_row ws' = current_row ws \<and> title ws' = title ws
       \<and> tables ws' = tables ws \<and> auto_filter_ref ws' = auto_filter_ref ws
       \<and> conditional_formatting ws' = conditional_formatting ws \<and> freeze_panes ws' = freeze_panes ws"
  using assms
proof (induction widths arbitrary: ws)
  case Nil
  then show ?case by simp
next
  case (Cons a widths)
  obtain col_idx width where a: "a = (col_idx, width)" by (cases a)
  from Cons.prems obtain letter where
    "set_col_widths widths (ws\<lparr>column_widths := AList.update letter width (column_widths ws)\<rparr>) = Inr ws'"
    by (auto simp: a split: sum.splits)
  from Cons.IH[OF this] show ?case by simp
qed

lemma set_col_widths_total:
  assumes "\<forall>p\<in>set widths. 1 \<le> fst p \<and> fst p \<le> 18278"
  shows "is_ok (set_col_widths widths ws)"
  using assms
proof (induction widths arbitrary: ws)
  case Nil
  then show ?case by simp
next
  case (Cons a widths)
  obtain col_idx width where a: "a = (col_idx, width)" by (cases a)
  with Cons.prems have "get_column_letter col_idx = Inr (column_letter_loop col_idx [])"
    by (simp add: get_column_letter_def)
  with Cons show ?case by (simp add: a)
qed

lemma grid_step_simps [simp]:
  "grid_step (set_title t)" "grid_step (set_freeze_panes a)" "grid_step (set_row_height r h)"
  "grid_step (add_conditional_formatting rs rule)" "grid_step (add_table tb)"
  "grid_step (set_col_widths widths)" "grid_step (apply_table nm sr sc er ec)"
  "grid_step set_auto_filter_to_dimensions"
  using set_col_widths_result
  by (auto simp: grid_step_def set_title_def set_freeze_panes_def set_row_height_def
      add_conditional_formatting_def add_table_def apply_table_def
      set_auto_filter_to_dimensions_def split: sum.splits)

lemma style_in_mono: "style_in K f \<Longrightarrow> K \<subseteq> K' \<Longrightarrow> style_in K' f"
  by (auto simp: style_in_def)

lemma mixed_steps_run:
  assumes "\<forall>f\<in>set fs. style_in K f \<or> grid_step f" "K \<subseteq> cell_keys ws"
    "run_steps fs ws = Inr ws'"
  shows "cell_keys ws' = cell_keys ws \<and> current_row ws' = current_row ws \<and> value_at ws' = value_at ws"
  using assms
proof (induction fs arbitrary: ws)
  case Nil
  then show ?case by simp
next
  case (Cons f fs)
  from Cons.prems(3) obtain y where y: "f ws = Inr y" "run_steps fs y = Inr ws'"
    by (rule run_steps_ConsD)
  have fy: "cell_keys y = cell_keys ws \<and> current_row y = current_row ws \<and> value_at y = value_at ws"
  proof (cases "style_in K f")
    case True
    from style_in_step[OF True Cons.prems(2) y(1)] show ?thesis by simp
  next
    case False
    with Cons.prems(1) have "grid_step f" by simp
    from grid_stepD[OF this y(1)] show ?thesis by simp
  qed
  then have "K \<subseteq> cell_keys y" using Cons.prems(2) by simp
  from Cons.IH[OF _ this y(2)] Cons.prems(1) fy show ?case by simp
qed

lemma style_inI:
  "(r, c) \<in> K \<Longrightarrow> 1 \<le> r \<Longrightarrow> 1 \<le> c \<Longrightarrow> keeps_value g \<Longrightarrow> style_in K (style_cell r c g)"
  by (auto simp: style_in_def)

lemma style_header_in: "\<forall>f\<in>set (style_header n a). style_in ({1} \<times> {1..n}) f"
  by (auto simp: style_header_def intro!: style_inI)

lemma align_rows_in: "1 \<le> r0 \<Longrightarrow> 1 \<le> c0 \<Longrightarrow>
    \<forall>f\<in>set (align_rows r0 r1 c0 c1 a). style_in ({r0..r1} \<times> {c0..c1}) f"
  by (auto simp: align_rows_def intro!: style_inI)

text \<open>The cells of a sheet that is filled as a table: a header row, then the data rows.\<close>

lemma table_sheet_cells:
  assumes fresh: "cells ws0 = []" "current_row ws0 = 0"
    and f0: "grid_step f0"
    and len: "\<forall>row\<in>set rows. length row = length hdr"
    and H: "\<forall>f\<in>set H. style_in ({1} \<times> {1..length hdr}) f \<or> grid_step f"
    and T: "\<forall>f\<in>set T. style_in ({1..1 + length rows} \<times> {1..length hdr}) f \<or> grid_step f"
    and run: "run_steps ([f0, ws_append hdr] @ H @ map ws_append rows @ T) ws0 = Inr ws'"
  shows "cell_keys ws' = {1..1 + length rows} \<times> {1..length hdr}"
    and "current_row ws' = 1 + length rows"
    and "\<And>j. 1 \<le> j \<Longrightarrow> j \<le> length hdr \<Longrightarrow> value_at ws' (1, j) = stored (hdr ! (j - 1))"
    and "\<And>i j. i < length rows \<Longrightarrow> 1 \<le> j \<Longrightarrow> j \<le> length hdr \<Longrightarrow>
           value_at ws' (i + 2, j) = stored (rows ! i ! (j - 1))"
    and "list_all storable hdr" and "list_all (list_all storable) rows"
proof -
  from run obtain w1 w2 w3 w4 where
    w1: "f0 ws0 = Inr w1" and w2: "ws_append hdr w1 = Inr w2"
    and w3: "run_steps H w2 = Inr w3" and w4: "run_steps (map ws_append rows) w3 = Inr w4"
    and w5: "run_steps T w4 = Inr ws'"
  proof -
    from run obtain wa where wa: "run_steps [f0, ws_append hdr] ws0 = Inr wa"
      and rest: "run_steps (H @ map ws_append rows @ T) wa = Inr ws'"
      by (rule run_steps_appendD)
    from wa obtain w1 where w1: "f0 ws0 = Inr w1" and wb: "run_steps [ws_append hdr] w1 = Inr wa"
      by (rule run_steps_ConsD)
    from wb have w2: "ws_append hdr w1 = Inr wa" by (auto split: sum.splits)
    from rest obtain w3 where w3: "run_steps H wa = Inr w3"
      and rest2: "run_steps (map ws_append rows @ T) w3 = Inr ws'"
      by (rule run_steps_appendD)
    from rest2 obtain w4 where w4: "run_steps (map ws_append rows) w3 = Inr w4"
      and w5: "run_steps T w4 = Inr ws'"
      by (rule run_steps_appendD)
    from w1 w2 w3 w4 w5 that show ?thesis by blast
  qed
  note g1 = grid_stepD[OF f0 w1]
  have k1: "cell_keys w1 = {}" using g1(1) fresh by (simp add: cell_keys_def)
  have v1: "\<And>k. value_at w1 k = PNone" using g1(1) fresh by (simp add: value_at_def)
  have r1: "current_row w1 = 0" using g1(2) fresh by simp
  note a2 = ws_append_result[OF w2]
  have k2: "cell_keys w2 = {1} \<times> {1..length hdr}" using a2(4) k1 r1 by simp
  have r2: "current_row w2 = 1" using a2(1) r1 by simp
  have v2: "\<And>k. value_at w2 k = (if fst k = 1 \<and> 1 \<le> snd k \<and> snd k \<le> length hdr
                             then stored (hdr ! (snd k - 1)) else PNone)"
    unfolding a2(3) v1 r1 by simp
  have "{1} \<times> {1..length hdr} \<subseteq> cell_keys w2" using k2 by simp
  from mixed_steps_run[OF H this w3]
  have m3: "cell_keys w3 = cell_keys w2" "current_row w3 = current_row w2" "value_at w3 = value_at w2"
    by simp_all
  note a4 = appends_result[OF w4]
  have r3: "current_row w3 = 1" using m3(2) r2 by simp
  have r4: "current_row w4 = 1 + length rows" using a4(1) r3 by simp
  have inrow: "length (rows ! (r - Suc 1)) = length hdr" if "1 < r" "r \<le> 1 + length rows" for r
  proof -
    from that have "r - Suc 1 < length rows" by arith
    then have "rows ! (r - Suc 1) \<in> set rows" by simp
    with len show ?thesis by simp
  qed
  have k4: "cell_keys w4 = {1..1 + length rows} \<times> {1..length hdr}"
  proof (rule set_eqI)
    fix k :: "nat \<times> nat"
    obtain r c where k: "k = (r, c)" by (cases k)
    have "k \<in> cell_keys w4 \<longleftrightarrow> (r = 1 \<and> 1 \<le> c \<and> c \<le> length hdr)
        \<or> (1 < r \<and> r \<le> 1 + length rows \<and> 1 \<le> c \<and> c \<le> length (rows ! (r - Suc 1)))"
      unfolding a4(4) m3(1) k2 r3 k by auto
    also have "\<dots> \<longleftrightarrow> (r = 1 \<and> 1 \<le> c \<and> c \<le> length hdr)
        \<or> (1 < r \<and> r \<le> 1 + length rows \<and> 1 \<le> c \<and> c \<le> length hdr)"
      using inrow[of r] by auto
    also have "\<dots> \<longleftrightarrow> k \<in> {1..1 + length rows} \<times> {1..length hdr}"
      unfolding k by auto
    finally show "k \<in> cell_keys w4 \<longleftrightarrow> k \<in> {1..1 + length rows} \<times> {1..length hdr}" .
  qed
  have v4: "\<And>k. value_at w4 k =
           (if 1 < fst k \<and> fst k \<le> 1 + length rows
                    \<and> 1 \<le> snd k \<and> snd k \<le> length (rows ! (fst k - Suc 1))
                 then stored (rows ! (fst k - Suc 1) ! (snd k - 1))
                 else value_at w2 k)"
    unfolding a4(3) r3 m3(3) by simp
  have "{1..1 + length rows} \<times> {1..length hdr} \<subseteq> cell_keys w4" using k4 by simp
  from mixed_steps_run[OF T this w5]
  have m5: "cell_keys ws' = cell_keys w4" "current_row ws' = current_row w4" "value_at ws' = value_at w4"
    by simp_all
  show "cell_keys ws' = {1..1 + length rows} \<times> {1..length hdr}" using m5 k4 by simp
  show "current_row ws' = 1 + length rows" using m5 r4 by simp
  show "\<And>j. 1 \<le> j \<Longrightarrow> j \<le> length hdr \<Longrightarrow> value_at ws' (1, j) = stored (hdr ! (j - 1))"
    unfolding m5(3) v4 v2 by simp
  show "\<And>i j. i < length rows \<Longrightarrow> 1 \<le> j \<Longrightarrow> j \<le> length hdr \<Longrightarrow>
           value_at ws' (i + 2, j) = stored (rows ! i ! (j - 1))"
  proof -
    fix i j assume ij: "i < length rows" "1 \<le> j" "j \<le> length hdr"
    then have "rows ! i \<in> set rows" by simp
    with len have "length (rows ! i) = length hdr" by simp
    with ij show "value_at ws' (i + 2, j) = stored (rows ! i ! (j - 1))"
      unfolding m5(3) v4 by simp
  qed
  show "list_all storable hdr" using w2 ws_append_ok[of hdr w1] by simp
  show "list_all (list_all storable) rows" using w4 appends_okD[of rows w3] by simp
qed

lemma table_sheet_facts:
  assumes "cells ws0 = []" "current_row ws0 = 0"
    and "grid_step f0"
    and "length hdr = m" "length rows = n"
    and "\<forall>row\<in>set rows. length row = m"
    and "\<forall>f\<in>set H. style_in ({1} \<times> {1..m}) f \<or> grid_step f"
    and "\<forall>f\<in>set T. style_in ({1..1 + n} \<times> {1..m}) f \<or> grid_step f"
    and "run_steps ([f0, ws_append hdr] @ H @ map ws_append rows @ T) ws0 = Inr ws'"
  shows "cell_keys ws' = {1..1 + n} \<times> {1..m}"
    and "current_row ws' = 1 + n"
    and "\<And>j. 1 \<le> j \<Longrightarrow> j \<le> m \<Longrightarrow> value_at ws' (1, j) = stored (hdr ! (j - 1))"
    and "\<And>i j. i < n \<Longrightarrow> 1 \<le> j \<Longrightarrow> j \<le> m \<Longrightarrow>
           value_at ws' (i + 2, j) = stored (rows ! i ! (j - 1))"
    and "list_all storable hdr" and "list_all (list_all storable) rows"
  using table_sheet_cells[of ws0 f0 rows hdr H T ws'] assms by blast+

lemma table_sheet_ok:
  assumes "never_raises f0" "\<forall>f\<in>set H. never_raises f" "\<forall>f\<in>set T. never_raises f"
    and "list_all storable hdr" "list_all (list_all storable) rows"
  shows "is_ok (run_steps ([f0, ws_append hdr] @ H @ map ws_append rows @ T) ws0)"
proof -
  from totalD[OF assms(1), of ws0] obtain w1 where w1: "f0 ws0 = Inr w1" by auto
  from assms(4) obtain w2 where w2: "ws_append hdr w1 = Inr w2"
    using ws_append_ok[of hdr w1] by (auto simp: is_ok_iff)
  from totalD[OF total_run_steps[OF assms(2)], of w2] obtain w3 where w3: "run_steps H w2 = Inr w3"
    by auto
  from appends_ok[OF assms(5)] obtain w4 where w4: "run_steps (map ws_append rows) w3 = Inr w4"
    by (auto simp: is_ok_iff)
  from totalD[OF total_run_steps[OF assms(3)], of w4] obtain w5 where w5: "run_steps T w4 = Inr w5"
    by auto
  show ?thesis using w1 w2 w3 w4 w5 by (simp add: run_steps_append)
qed

subsection \<open>Totality of the single steps\<close>

lemma total_simps [simp]:
  "never_raises (set_title t)" "never_raises (set_freeze_panes a)" "never_raises (set_row_height r h)"
  "never_raises (add_conditional_formatting rs rule)" "never_raises (add_table tb)"
  by (simp_all add: never_raises_def set_title_def set_freeze_panes_def set_row_height_def
      add_conditional_formatting_def add_table_def)

lemma total_set_col_widths:
  "\<forall>p\<in>set widths. 1 \<le> fst p \<and> fst p \<le> 18278 \<Longrightarrow> never_raises (set_col_widths widths)"
  by (simp add: never_raises_def set_col_widths_total)

lemma total_apply_table:
  "1 \<le> sc \<Longrightarrow> sc \<le> 18278 \<Longrightarrow> 1 \<le> ec \<Longrightarrow> ec \<le> 18278 \<Longrightarrow> never_raises (apply_table nm sr sc er ec)"
  by (simp add: never_raises_def apply_table_def get_column_letter_def add_table_def)

lemma total_style_cell:
  "1 \<le> r \<Longrightarrow> r \<le> 1048576 \<Longrightarrow> 1 \<le> c \<Longrightarrow> never_raises (style_cell r c g)"
  by (simp add: never_raises_def style_cell_total)

lemma total_ws_append: "list_all storable vs \<Longrightarrow> never_raises (ws_append vs)"
  by (simp add: never_raises_def ws_append_ok)

subsection \<open>Assignment to an address\<close>

lemma ws_cell_facts:
  assumes "ws_cell r c ws = Inr y"
  shows "decor y = decor ws" "\<And>k. value_at y k = value_at ws k" "(r, c) \<in> cell_keys y"
    "cell_keys y = insert (r, c) (cell_keys ws)"
proof -
  show "decor y = decor ws"
    using assms by (auto simp: ws_cell_def decor_def split: if_splits)
  show "\<And>k. value_at y k = value_at ws k"
    using assms by (auto simp: ws_cell_def value_at_def new_cell_def split: if_splits option.splits)
  show "cell_keys y = insert (r, c) (cell_keys ws)"
    using assms by (auto simp: ws_cell_def cell_keys_def map_of_eq_None_iff split: if_splits)
  then show "(r, c) \<in> cell_keys y" by simp
qed

lemma map_of_map_entry_at:
  "map_of (AList.map_entry k g xs) k' = (if k' = k then map_option g (map_of xs k) else map_of xs k')"
  by (induction xs) auto

lemma ws_setitem_result:
  assumes "coordinate_to_tuple addr = Some (r, c)" "ws_setitem addr v ws = Inr ws'"
  shows "decor ws' = decor ws"
    and "\<And>k. value_at ws' k = (if k = (r, c) then stored v else value_at ws k)"
    and "storable v"
proof -
  from assms obtain y v' where y: "ws_cell r c ws = Inr y" and v': "bind_value v = Inr v'"
    and ws': "ws' = y\<lparr>cells := AList.map_entry (r, c) (\<lambda>cl. cl\<lparr>cell_value := v'\<rparr>) (cells y)\<rparr>"
    by (auto simp: ws_setitem_def split: sum.splits)
  note f = ws_cell_facts[OF y]
  have sv: "v' = stored v" using v' by (rule bind_value_stored)
  show "storable v" using v' by (simp add: storable_iff)
  show "decor ws' = decor ws" using f(1) by (simp add: ws' decor_def)
  show "\<And>k. value_at ws' k = (if k = (r, c) then stored v else value_at ws k)"
  proof -
    fix k
    from f(3) obtain cl where cl: "map_of (cells y) (r, c) = Some cl"
      by (cases "map_of (cells y) (r, c)") (auto simp: cell_keys_def map_of_eq_None_iff)
    show "value_at ws' k = (if k = (r, c) then stored v else value_at ws k)"
    proof (cases "k = (r, c)")
      case True
      then show ?thesis by (simp add: value_at_def ws' map_of_map_entry_at cl sv)
    next
      case False
      then have "value_at ws' k = value_at y k"
        by (simp add: value_at_def ws' map_of_map_entry_at)
      with False f(2) show ?thesis by simp
    qed
  qed
qed

lemma ws_setitem_ok:
  assumes "coordinate_to_tuple addr = Some (r, c)" "1 \<le> r" "1 \<le> c" "storable v" "r \<le> 1048576"
  shows "is_ok (ws_setitem addr v ws)"
  using assms storable_bind[OF assms(4)]
  by (simp add: ws_setitem_def ws_cell_def)

lemma total_ws_setitem:
  "coordinate_to_tuple addr = Some (r, c) \<Longrightarrow> 1 \<le> r \<Longrightarrow> 1 \<le> c \<Longrightarrow> storable v
     \<Longrightarrow> r \<le> 1048576 \<Longrightarrow> never_raises (ws_setitem addr v)"
  by (simp add: never_raises_def ws_setitem_ok)

lemma total_style_item:
  "coordinate_to_tuple addr = Some (r, c) \<Longrightarrow> 1 \<le> r \<Longrightarrow> 1 \<le> c \<Longrightarrow> r \<le> 1048576
     \<Longrightarrow> never_raises (style_item addr g)"
  by (simp add: never_raises_def style_item_def style_cell_total)

lemma style_item_result:
  assumes "keeps_value g" "style_item addr g ws = Inr ws'"
  shows "value_at ws' = value_at ws" "decor ws' = decor ws"
proof -
  from assms(2) obtain r c where "style_cell r c g ws = Inr ws'"
    by (auto simp: style_item_def split: option.splits)
  from style_cell_value[OF assms(1) this]
  show "value_at ws' = value_at ws" "decor ws' = decor ws" by simp_all
qed

subsection \<open>Addresses and literals\<close>

lemma addresses [simp]:
  "coordinate_to_tuple (lit ''A1'') = Some (1, 1)"
  "coordinate_to_tuple (lit ''A3'') = Some (3, 1)"
  "coordinate_to_tuple (lit ''B3'') = Some (3, 2)"
  "coordinate_to_tuple (lit ''A4'') = Some (4, 1)"
  "coordinate_to_tuple (lit ''B4'') = Some (4, 2)"
  "coordinate_to_tuple (lit ''A6'') = Some (6, 1)"
  "coordinate_to_tuple (lit ''A7'') = Some (7, 1)"
  by (simp_all add: coordinate_to_tuple_def lit_def is_capital_def is_digit_def
      int_of_digits_def column_index_from_string_def)

lemma storable_legal: "list_all (\<lambda>c. \<not> illegal_character c) v \<Longrightarrow> storable (PStr v)"
proof -
  assume a: "list_all (\<lambda>c. \<not> illegal_character c) v"
  have "set (take 32767 v) \<subseteq> set v" by (rule set_take_subset)
  with a show ?thesis by (auto simp: storable_PStr list_all_iff list_ex_iff)
qed

lemma legal_lit: "printable cs \<Longrightarrow> list_all (\<lambda>c. \<not> illegal_character c) (lit cs)"
  by (auto simp: printable_def lit_def list_all_iff illegal_character_def)

lemma storable_lit: "printable cs \<Longrightarrow> storable (PStr (lit cs))"
  by (rule storable_legal[OF legal_lit])

lemma printable_Nil [simp]: "printable []"
  by (simp add: printable_def)

lemma printable_Cons [simp]: "printable (c # cs) \<longleftrightarrow> 32 \<le> (of_char c :: nat) \<and> printable cs"
  by (simp add: printable_def)

subsection \<open>What each step keeps\<close>

lemma keeps_decor_cell_steps:
  "keeps decor (ws_append vs)" "keeps decor (style_cell r c g)"
  "keeps decor (ws_setitem addr v)" "keeps decor (style_item addr g)"
proof -
  show "keeps decor (ws_append vs)"
    using ws_append_result(2) by (auto simp: keeps_def)
  show sc: "\<And>r c. keeps decor (style_cell r c g)"
    by (auto simp: keeps_def style_cell_def ws_cell_def decor_def split: sum.splits if_splits)
  show "keeps decor (ws_setitem addr v)"
    by (auto simp: keeps_def ws_setitem_def ws_cell_def decor_def
        split: sum.splits if_splits option.splits)
  show "keeps decor (style_item addr g)"
    using sc by (auto simp: keeps_def style_item_def split: option.splits)
qed

lemma keeps_of_decor:
  assumes "keeps decor f"
  shows "keeps title f" "keeps tables f" "keeps auto_filter_ref f" "keeps conditional_formatting f"
    "keeps freeze_panes f"
  using assms decor_eq_fields unfolding keeps_def by blast+

lemma keeps_title:
  "keeps title (ws_append vs)" "keeps title (style_cell r c g)"
  "keeps title (ws_setitem addr v)" "keeps title (style_item addr g)"
  "keeps title (set_freeze_panes a)" "keeps title (set_row_height rr h)"
  "keeps title (add_conditional_formatting rs rule)" "keeps title (set_col_widths widths)"
  "keeps title (apply_table nm sr sc er ec)" "keeps title set_auto_filter_to_dimensions"
  using keeps_of_decor(1)[OF keeps_decor_cell_steps(1)] keeps_of_decor(1)[OF keeps_decor_cell_steps(2)]
    keeps_of_decor(1)[OF keeps_decor_cell_steps(3)] keeps_of_decor(1)[OF keeps_decor_cell_steps(4)]
    set_col_widths_result
  by (auto simp: keeps_def set_freeze_panes_def set_row_height_def add_conditional_formatting_def
      apply_table_def add_table_def set_auto_filter_to_dimensions_def split: sum.splits)

lemma keeps_tables:
  "keeps tables (ws_append vs)" "keeps tables (style_cell r c g)"
  "keeps tables (ws_setitem addr v)" "keeps tables (style_item addr g)"
  "keeps tables (set_title t)"
  "keeps tables (set_freeze_panes a)" "keeps tables (set_row_height rr h)"
  "keeps tables (add_conditional_formatting rs rule)" "keeps tables (set_col_widths widths)"
  "keeps tables set_auto_filter_to_dimensions"
  using keeps_of_decor(2)[OF keeps_decor_cell_steps(1)] keeps_of_decor(2)[OF keeps_decor_cell_steps(2)]
    keeps_of_decor(2)[OF keeps_decor_cell_steps(3)] keeps_of_decor(2)[OF keeps_decor_cell_steps(4)]
    set_col_widths_result
  by (auto simp: keeps_def set_freeze_panes_def set_row_height_def add_conditional_formatting_def
      set_title_def set_auto_filter_to_dimensions_def split: sum.splits)

lemma keeps_auto_filter:
  "keeps auto_filter_ref (ws_append vs)" "keeps auto_filter_ref (style_cell r c g)"
  "keeps auto_filter_ref (ws_setitem addr v)" "keeps auto_filter_ref (style_item addr g)"
  "keeps auto_filter_ref (set_title t)"
  "keeps auto_filter_ref (set_freeze_panes a)" "keeps auto_filter_ref (set_row_height rr h)"
  "keeps auto_filter_ref (add_conditional_formatting rs rule)"
  "keeps auto_filter_ref (set_col_widths widths)"
  "keeps auto_filter_ref (apply_table nm sr sc er ec)"
  using keeps_of_decor(3)[OF keeps_decor_cell_steps(1)] keeps_of_decor(3)[OF keeps_decor_cell_steps(2)]
    keeps_of_decor(3)[OF keeps_decor_cell_steps(3)] keeps_of_decor(3)[OF keeps_decor_cell_steps(4)]
    set_col_widths_result
  by (auto simp: keeps_def set_freeze_panes_def set_row_height_def add_conditional_formatting_def
      set_title_def apply_table_def add_table_def split: sum.splits)

lemma keeps_cf:
  "keeps conditional_formatting (ws_append vs)" "keeps conditional_formatting (style_cell r c g)"
  "keeps conditional_formatting (ws_setitem addr v)" "keeps conditional_formatting (style_item addr g)"
  "keeps conditional_formatting (set_title t)"
  "keeps conditional_formatting (set_freeze_panes a)" "keeps conditional_formatting (set_row_height rr h)"
  "keeps conditional_formatting (set_col_widths widths)"
  "keeps conditional_formatting (apply_table nm sr sc er ec)"
  "keeps conditional_formatting set_auto_filter_to_dimensions"
  using keeps_of_decor(4)[OF keeps_decor_cell_steps(1)] keeps_of_decor(4)[OF keeps_decor_cell_steps(2)]
    keeps_of_decor(4)[OF keeps_decor_cell_steps(3)] keeps_of_decor(4)[OF keeps_decor_cell_steps(4)]
    set_col_widths_result
  by (auto simp: keeps_def set_freeze_panes_def set_row_height_def
      set_title_def apply_table_def add_table_def set_auto_filter_to_dimensions_def split: sum.splits)

lemma keeps_value_at:
  "grid_step f \<Longrightarrow> keeps value_at f"
  "keeps_value g \<Longrightarrow> keeps value_at (style_cell r c g)"
  "keeps_value g \<Longrightarrow> keeps value_at (style_item addr g)"
proof -
  show "grid_step f \<Longrightarrow> keeps value_at f"
    using grid_stepD(4) by (auto simp: keeps_def)
  show "keeps_value g \<Longrightarrow> keeps value_at (style_cell r c g)"
    using style_cell_value(1) by (auto simp: keeps_def)
  show "keeps_value g \<Longrightarrow> keeps value_at (style_item addr g)"
    using style_item_result(1) by (auto simp: keeps_def)
qed

lemma apply_table_result:
  assumes "apply_table nm sr sc er ec ws = Inr ws'"
  shows "\<exists>a b. get_column_letter sc = Inr a \<and> get_column_letter ec = Inr b \<and>
     tables ws' = tables ws @
       [\<lparr>displayName = nm, ref = a @ str_nat sr @ lit '':'' @ b @ str_nat er,
         tableStyleInfo = Some \<lparr>style_name = lit ''TableStyleMedium9'', showFirstColumn = False,
           showLastColumn = False, showRowStripes = True, showColumnStripes = False\<rparr>\<rparr>]"
  using assms by (auto simp: apply_table_def add_table_def split: sum.splits)

lemma fresh_sheet [simp]:
  "cells (new_worksheet t) = []" "current_row (new_worksheet t) = 0" "title (new_worksheet t) = t"
  "tables (new_worksheet t) = []" "auto_filter_ref (new_worksheet t) = None"
  "conditional_formatting (new_worksheet t) = []"
  by (simp_all add: new_worksheet_def)

lemma length_scores [simp]: "length scores = 6"
  by (simp add: scores_def)

lemma scores_form:
  "scores_steps =
     [set_freeze_panes (lit ''A2''),
      ws_append [PStr (lit ''Pillar''), PStr (lit ''Score''), PStr (lit ''Status'')]]
     @ style_header 3 (Alignment (Some (lit ''center'')) None None)
     @ map ws_append (map score_row scores) @ scores_tail"
  unfolding scores_steps_def scores_tail_def by (simp add: comp_def)

lemma scores_tail_in:
  "\<forall>f\<in>set scores_tail. style_in ({1..1 + 6} \<times> {1..3}) f \<or> grid_step f"
  unfolding scores_tail_def by (auto intro!: style_inI)

lemma scores_tail_total: "\<forall>f\<in>set scores_tail. never_raises f"
  unfolding scores_tail_def
  by (auto intro!: total_style_cell total_set_col_widths total_apply_table)

lemma scores_cells:
  assumes "run_steps scores_steps (new_worksheet t) = Inr ws"
  shows "cell_keys ws = {1..7} \<times> {1..3}"
    and "\<And>i j. i < 6 \<Longrightarrow> 1 \<le> j \<Longrightarrow> j \<le> 3 \<Longrightarrow>
           value_at ws (i + 2, j) = stored (score_row (scores ! i) ! (j - 1))"
proof -
  have len: "\<forall>row\<in>set (map score_row scores). length row = 3"
    by (auto simp: score_row_def split: prod.splits)
  have H: "\<forall>f\<in>set (style_header 3 (Alignment (Some (lit ''center'')) None None)).
      style_in ({1} \<times> {1..3}) f \<or> grid_step f"
    using style_header_in[of 3] by blast
  note ts = table_sheet_facts[OF fresh_sheet(1) fresh_sheet(2) grid_step_simps(2) _ _ len H
      scores_tail_in assms[unfolded scores_form]]
  show "cell_keys ws = {1..7} \<times> {1..3}" using ts(1) by simp
  show "\<And>i j. i < 6 \<Longrightarrow> 1 \<le> j \<Longrightarrow> j \<le> 3 \<Longrightarrow>
           value_at ws (i + 2, j) = stored (score_row (scores ! i) ! (j - 1))"
    using ts(4) by simp
qed

subsection \<open>Running a prefix that keeps an observation\<close>

lemma run_prefix_keeps:
  assumes "steps = P @ L" "\<forall>f\<in>set P. keeps obs f" "run_steps steps ws0 = Inr ws"
  obtains y where "obs y = obs ws0" "run_steps L y = Inr ws"
proof -
  from assms(3)[unfolded assms(1)] obtain y where y: "run_steps P ws0 = Inr y" "run_steps L y = Inr ws"
    by (rule run_steps_appendD)
  from keepsD[OF keeps_run_steps[OF assms(2)] y(1)] y(2) that show ?thesis by blast
qed

lemma run_last_keeps:
  assumes "steps \<noteq> []" "\<forall>f\<in>set (butlast steps). keeps obs f" "run_steps steps ws0 = Inr ws"
  obtains y where "obs y = obs ws0" "last steps y = Inr ws"
proof -
  have "steps = butlast steps @ [last steps]" using assms(1) by simp
  from run_prefix_keeps[OF this assms(2) assms(3)] obtain y where
    y: "obs y = obs ws0" "run_steps [last steps] y = Inr ws" by blast
  from y(2) have "last steps y = Inr ws" by (auto split: sum.splits)
  with y(1) that show ?thesis by blast
qed

lemmas keeps_intros = keeps_title keeps_tables keeps_auto_filter keeps_cf

lemma column_letters [simp]:
  "get_column_letter 1 = Inr (lit ''A'')" "get_column_letter 3 = Inr (lit ''C'')"
  "get_column_letter 9 = Inr (lit ''I'')"
  by (simp_all add: get_column_letter_def column_letter_loop.simps lit_def)

lemma str_nat_small [simp]: "str_nat 1 = lit ''1''" "str_nat 7 = lit ''7''" "str_nat 4 = lit ''4''"
  by (simp_all add: str_nat.simps lit_def)

lemma one_as_Suc [simp]:
  "get_column_letter (Suc 0) = Inr (lit ''A'')" "str_nat (Suc 0) = lit ''1''"
  using column_letters(1) str_nat_small(1) by simp_all

subsection \<open>Sheet: Scores\<close>

lemma scores_title:
  assumes "run_steps scores_steps ws0 = Inr ws"
  shows "title ws = title ws0" "auto_filter_ref ws = auto_filter_ref ws0"
proof -
  have "\<forall>f\<in>set scores_steps. keeps title f"
    unfolding scores_steps_def style_header_def by (auto intro!: keeps_intros)
  from keepsD[OF keeps_run_steps[OF this] assms] show "title ws = title ws0" .
  have "\<forall>f\<in>set scores_steps. keeps auto_filter_ref f"
    unfolding scores_steps_def style_header_def by (auto intro!: keeps_intros)
  from keepsD[OF keeps_run_steps[OF this] assms] show "auto_filter_ref ws = auto_filter_ref ws0" .
qed

lemma scores_tables:
  assumes "run_steps scores_steps ws0 = Inr ws"
  shows "tables ws = tables ws0 @
       [\<lparr>displayName = lit ''ScoresTable'', ref = lit ''A1:C7'',
         tableStyleInfo = Some \<lparr>style_name = lit ''TableStyleMedium9'', showFirstColumn = False,
           showLastColumn = False, showRowStripes = True, showColumnStripes = False\<rparr>\<rparr>]"
proof -
  have ne: "scores_steps \<noteq> []" by (simp add: scores_steps_def)
  have l: "last scores_steps = apply_table (lit ''ScoresTable'') 1 1 (1 + length scores) 3"
    by (simp add: scores_steps_def)
  have k: "\<forall>f\<in>set (butlast scores_steps). keeps tables f"
    unfolding scores_steps_def style_header_def by (auto simp: butlast_append intro!: keeps_intros)
  from run_last_keeps[OF ne k assms] obtain y where y: "tables y = tables ws0"
    "last scores_steps y = Inr ws" by blast
  from apply_table_result[OF y(2)[unfolded l]] y(1) show ?thesis
    by (auto simp: lit_def)
qed

lemma align_rows_within:
  assumes "1 \<le> r0" "1 \<le> c0" "{r0..r1} \<times> {c0..c1} \<subseteq> K"
  shows "\<forall>f\<in>set (align_rows r0 r1 c0 c1 a). style_in K f \<or> grid_step f"
  using align_rows_in[OF assms(1,2), of r1 c1 a] style_in_mono[OF _ assms(3)] by blast

lemma style_header_within: "\<forall>f\<in>set (style_header n a). style_in ({1} \<times> {1..n}) f \<or> grid_step f"
  using style_header_in[of n a] by blast

lemma style_header_total: "\<forall>f\<in>set (style_header n a). never_raises f"
  by (auto simp: style_header_def intro!: total_style_cell)

lemma align_rows_total:
  "1 \<le> r0 \<Longrightarrow> 1 \<le> c0 \<Longrightarrow> r1 \<le> 1048576 \<Longrightarrow>
     \<forall>f\<in>set (align_rows r0 r1 c0 c1 a). never_raises f"
  by (auto simp: align_rows_def intro!: total_style_cell)

lemma special_characters [simp]:
  "list_all (\<lambda>c. \<not> illegal_character c) rightwards_arrow"
  "list_all (\<lambda>c. \<not> illegal_character c) en_dash"
  by (simp_all add: rightwards_arrow_def en_dash_def illegal_character_def)

lemma legal_append [simp]:
  "list_all (\<lambda>c. \<not> illegal_character c) (u @ v) \<longleftrightarrow>
     list_all (\<lambda>c. \<not> illegal_character c) u \<and> list_all (\<lambda>c. \<not> illegal_character c) v"
  by simp

subsection \<open>Sheet: Scores (continued)\<close>

lemma scores_ok: "is_ok (run_steps scores_steps ws0)"
  unfolding scores_form
proof (rule table_sheet_ok)
  show "never_raises (set_freeze_panes (lit ''A2''))" by simp
  show "\<forall>f\<in>set (style_header 3 (Alignment (Some (lit ''center'')) None None)). never_raises f"
    by (rule style_header_total)
  show "\<forall>f\<in>set scores_tail. never_raises f" by (rule scores_tail_total)
  show "list_all storable [PStr (lit ''Pillar''), PStr (lit ''Score''), PStr (lit ''Status'')]"
    by (simp add: storable_lit)
  show "list_all (list_all storable) (map score_row scores)"
    by (simp add: scores_def score_row_def storable_lit)
qed

lemma scores_rules:
  assumes "run_steps scores_steps ws0 = Inr ws"
  shows "conditional_formatting ws = conditional_formatting ws0 @
     [(lit ''B2:B7'', CellIsRule (lit ''lessThan'') [lit ''60''] (PatternFill (lit ''solid'') (lit ''F8D7DA''))),
      (lit ''B2:B7'', CellIsRule (lit ''between'') [lit ''60'', lit ''79'']
             (PatternFill (lit ''solid'') (lit ''FFF3CD''))),
      (lit ''B2:B7'', CellIsRule (lit ''greaterThanOrEqual'') [lit ''80'']
             (PatternFill (lit ''solid'') (lit ''D1E7DD'')))]"
proof -
  define P where "P = [set_freeze_panes (lit ''A2''),
      ws_append [PStr (lit ''Pillar''), PStr (lit ''Score''), PStr (lit ''Status'')]]
     @ style_header 3 (Alignment (Some (lit ''center'')) None None)
     @ map (\<lambda>row. ws_append (score_row row)) scores
     @ [set_col_widths [(1, 28), (2, 10), (3, 35)]]
     @ concat (map (\<lambda>r. [style_cell r 1 (set_alignment top_alignment),
                          style_cell r 2 (set_alignment (Alignment (Some (lit ''center'')) None None)),
                          style_cell r 3 (set_alignment top_alignment)])
                   [2..<2 + length scores])"
  define L where "L = [add_conditional_formatting score_range
          (CellIsRule (lit ''lessThan'') [lit ''60''] (PatternFill (lit ''solid'') (lit ''F8D7DA''))),
        add_conditional_formatting score_range
          (CellIsRule (lit ''between'') [lit ''60'', lit ''79'']
             (PatternFill (lit ''solid'') (lit ''FFF3CD''))),
        add_conditional_formatting score_range
          (CellIsRule (lit ''greaterThanOrEqual'') [lit ''80'']
             (PatternFill (lit ''solid'') (lit ''D1E7DD''))),
        apply_table (lit ''ScoresTable'') 1 1 (1 + length scores) 3]"
  have form: "scores_steps = P @ L"
    unfolding scores_steps_def P_def L_def by simp
  have k: "\<forall>f\<in>set P. keeps conditional_formatting f"
    unfolding P_def style_header_def by (auto intro!: keeps_intros)
  from run_prefix_keeps[OF form k assms] obtain y where
    y: "conditional_formatting y = conditional_formatting ws0" "run_steps L y = Inr ws" by blast
  have sr: "score_range = lit ''B2:B7''"
    by (simp add: score_range_def lit_def)
  from y(2) have "conditional_formatting ws = conditional_formatting y @
     [(score_range, CellIsRule (lit ''lessThan'') [lit ''60''] (PatternFill (lit ''solid'') (lit ''F8D7DA''))),
      (score_range, CellIsRule (lit ''between'') [lit ''60'', lit ''79'']
             (PatternFill (lit ''solid'') (lit ''FFF3CD''))),
      (score_range, CellIsRule (lit ''greaterThanOrEqual'') [lit ''80'']
             (PatternFill (lit ''solid'') (lit ''D1E7DD'')))]"
    unfolding L_def
    by (auto simp: add_conditional_formatting_def apply_table_def add_table_def split: sum.splits)
  then show ?thesis unfolding sr y(1) .
qed

lemma score_values:
  "map (\<lambda>row. stored (score_row row ! 0)) scores =
     [PStr (lit ''Reliability''), PStr (lit ''Security''), PStr (lit ''Cost Optimization''),
      PStr (lit ''Operational Excellence''), PStr (lit ''Performance Efficiency''),
      PStr (lit ''Overall'')]"
  "map (\<lambda>row. stored (score_row row ! 1)) scores =
     [PInt 68, PInt 74, PInt 64, PInt 66, PInt 78, PInt 70]"
  by (simp_all add: scores_def score_row_def lit_def)

subsection \<open>Sheet: Recommendations\<close>

lemma length_recommendations [simp]: "length recommendations = 6" "length rec_headers = 9"
  by (simp_all add: recommendations_def rec_headers_def)

lemma recommendations_form:
  "recommendations_steps =
     [set_freeze_panes (lit ''A2''), ws_append (map PStr rec_headers)]
     @ style_header 9 header_alignment
     @ map ws_append (map recommendation_row recommendations)
     @ (align_rows 2 7 1 9 wrap
        @ [set_col_widths
             [(1, 10), (2, 46), (3, 26), (4, 38), (5, 34), (6, 10), (7, 16), (8, 22), (9, 60)],
           apply_table (lit ''RecommendationsTable'') 1 1 7 9])"
  unfolding recommendations_steps_def by (simp add: comp_def)

lemma recommendations_cells:
  assumes "run_steps recommendations_steps (new_worksheet t) = Inr ws"
  shows "cell_keys ws = {1..7} \<times> {1..9}"
proof -
  have len: "\<forall>row\<in>set (map recommendation_row recommendations). length row = 9"
    by (auto simp: recommendation_row_def)
  have T: "\<forall>f\<in>set (align_rows 2 7 1 9 wrap
        @ [set_col_widths
             [(1, 10), (2, 46), (3, 26), (4, 38), (5, 34), (6, 10), (7, 16), (8, 22), (9, 60)],
           apply_table (lit ''RecommendationsTable'') 1 1 7 9]).
       style_in ({1..1 + 6} \<times> {1..9}) f \<or> grid_step f"
  proof -
    have sub: "{2..7::nat} \<times> {1..9::nat} \<subseteq> {1..1 + 6} \<times> {1..9}" by auto
    have "\<forall>f\<in>set (align_rows 2 7 1 9 wrap). style_in ({1..1 + 6} \<times> {1..9}) f \<or> grid_step f"
      by (rule align_rows_within[OF _ _ sub]) simp_all
    then show ?thesis by auto
  qed
  note ts = table_sheet_facts[OF fresh_sheet(1) fresh_sheet(2) grid_step_simps(2) _ _ len
      style_header_within T assms[unfolded recommendations_form]]
  show "cell_keys ws = {1..7} \<times> {1..9}" using ts(1) by simp
qed

lemma recommendations_title:
  assumes "run_steps recommendations_steps ws0 = Inr ws"
  shows "title ws = title ws0" "auto_filter_ref ws = auto_filter_ref ws0"
proof -
  have "\<forall>f\<in>set recommendations_steps. keeps title f"
    unfolding recommendations_steps_def style_header_def align_rows_def
    by (auto intro!: keeps_intros)
  from keepsD[OF keeps_run_steps[OF this] assms] show "title ws = title ws0" .
  have "\<forall>f\<in>set recommendations_steps. keeps auto_filter_ref f"
    unfolding recommendations_steps_def style_header_def align_rows_def
    by (auto intro!: keeps_intros)
  from keepsD[OF keeps_run_steps[OF this] assms] show "auto_filter_ref ws = auto_filter_ref ws0" .
qed

lemma recommendations_tables:
  assumes "run_steps recommendations_steps ws0 = Inr ws"
  shows "tables ws = tables ws0 @
       [\<lparr>displayName = lit ''RecommendationsTable'', ref = lit ''A1:I7'',
         tableStyleInfo = Some \<lparr>style_name = lit ''TableStyleMedium9'', showFirstColumn = False,
           showLastColumn = False, showRowStripes = True, showColumnStripes = False\<rparr>\<rparr>]"
proof -
  have ne: "recommendations_steps \<noteq> []" by (simp add: recommendations_steps_def)
  have l: "last recommendations_steps = apply_table (lit ''RecommendationsTable'') 1 1 7 9"
    by (simp add: recommendations_steps_def)
  have k: "\<forall>f\<in>set (butlast recommendations_steps). keeps tables f"
    unfolding recommendations_steps_def style_header_def align_rows_def
    by (auto simp: butlast_append intro!: keeps_intros)
  from run_last_keeps[OF ne k assms] obtain y where y: "tables y = tables ws0"
    "last recommendations_steps y = Inr ws" by blast
  from apply_table_result[OF y(2)[unfolded l]] y(1) show ?thesis
    by (auto simp: lit_def)
qed

lemma recommendations_ok: "is_ok (run_steps recommendations_steps ws0)"
  unfolding recommendations_form
proof (rule table_sheet_ok)
  show "never_raises (set_freeze_panes (lit ''A2''))" by simp
  show "\<forall>f\<in>set (style_header 9 header_alignment). never_raises f"
    by (rule style_header_total)
  show "\<forall>f\<in>set (align_rows 2 7 1 9 wrap
        @ [set_col_widths
             [(1, 10), (2, 46), (3, 26), (4, 38), (5, 34), (6, 10), (7, 16), (8, 22), (9, 60)],
           apply_table (lit ''RecommendationsTable'') 1 1 7 9]). never_raises f"
    using align_rows_total[of 2 1 7 9 wrap]
    by (auto intro!: total_set_col_widths total_apply_table)
  show "list_all storable (map PStr rec_headers)"
    by (simp add: rec_headers_def storable_lit)
  show "list_all (list_all storable) (map recommendation_row recommendations)"
    by (simp add: recommendations_def recommendation_row_def storable_lit storable_legal legal_lit)
qed

subsection \<open>Sheet: Roadmap\<close>

lemma length_roadmap [simp]: "length roadmap = 3"
  by (simp add: roadmap_def)

lemma roadmap_form:
  "roadmap_steps =
     [set_freeze_panes (lit ''A2''),
      ws_append [PStr (lit ''Horizon''), PStr (lit ''Focus''), PStr (lit ''Actions'')]]
     @ style_header 3 header_alignment
     @ map ws_append (map roadmap_row roadmap)
     @ (align_rows 2 4 1 3 wrap
        @ [set_col_widths [(1, 14), (2, 22), (3, 110)],
           apply_table (lit ''RoadmapTable'') 1 1 4 3])"
  unfolding roadmap_steps_def by (simp add: comp_def)

lemma roadmap_cells:
  assumes "run_steps roadmap_steps (new_worksheet t) = Inr ws"
  shows "cell_keys ws = {1..4} \<times> {1..3}"
proof -
  have len: "\<forall>row\<in>set (map roadmap_row roadmap). length row = 3"
    by (auto simp: roadmap_row_def split: prod.splits)
  have T: "\<forall>f\<in>set (align_rows 2 4 1 3 wrap
        @ [set_col_widths [(1, 14), (2, 22), (3, 110)],
           apply_table (lit ''RoadmapTable'') 1 1 4 3]).
       style_in ({1..1 + 3} \<times> {1..3}) f \<or> grid_step f"
  proof -
    have sub: "{2..4::nat} \<times> {1..3::nat} \<subseteq> {1..1 + 3} \<times> {1..3}" by auto
    have "\<forall>f\<in>set (align_rows 2 4 1 3 wrap). style_in ({1..1 + 3} \<times> {1..3}) f \<or> grid_step f"
      by (rule align_rows_within[OF _ _ sub]) simp_all
    then show ?thesis by auto
  qed
  note ts = table_sheet_facts[OF fresh_sheet(1) fresh_sheet(2) grid_step_simps(2) _ _ len
      style_header_within T assms[unfolded roadmap_form]]
  show "cell_keys ws = {1..4} \<times> {1..3}" using ts(1) by simp
qed

lemma roadmap_title:
  assumes "run_steps roadmap_steps ws0 = Inr ws"
  shows "title ws = title ws0" "auto_filter_ref ws = auto_filter_ref ws0"
proof -
  have "\<forall>f\<in>set roadmap_steps. keeps title f"
    unfolding roadmap_steps_def style_header_def align_rows_def
    by (auto intro!: keeps_intros)
  from keepsD[OF keeps_run_steps[OF this] assms] show "title ws = title ws0" .
  have "\<forall>f\<in>set roadmap_steps. keeps auto_filter_ref f"
    unfolding roadmap_steps_def style_header_def align_rows_def
    by (auto intro!: keeps_intros)
  from keepsD[OF keeps_run_steps[OF this] assms] show "auto_filter_ref ws = auto_filter_ref ws0" .
qed

lemma roadmap_tables:
  assumes "run_steps roadmap_steps ws0 = Inr ws"
  shows "tables ws = tables ws0 @
       [\<lparr>displayName = lit ''RoadmapTable'', ref = lit ''A1:C4'',
         tableStyleInfo = Some \<lparr>style_name = lit ''TableStyleMedium9'', showFirstColumn = False,
           showLastColumn = False, showRowStripes = True, showColumnStripes = False\<rparr>\<rparr>]"
proof -
  have ne: "roadmap_steps \<noteq> []" by (simp add: roadmap_steps_def)
  have l: "last roadmap_steps = apply_table (lit ''RoadmapTable'') 1 1 4 3"
    by (simp add: roadmap_steps_def)
  have k: "\<forall>f\<in>set (butlast roadmap_steps). keeps tables f"
    unfolding roadmap_steps_def style_header_def align_rows_def
    by (auto simp: butlast_append intro!: keeps_intros)
  from run_last_keeps[OF ne k assms] obtain y where y: "tables y = tables ws0"
    "last roadmap_steps y = Inr ws" by blast
  from apply_table_result[OF y(2)[unfolded l]] y(1) show ?thesis
    by (auto simp: lit_def)
qed

lemma roadmap_ok: "is_ok (run_steps roadmap_steps ws0)"
  unfolding roadmap_form
proof (rule table_sheet_ok)
  show "never_raises (set_freeze_panes (lit ''A2''))" by simp
  show "\<forall>f\<in>set (style_header 3 header_alignment). never_raises f"
    by (rule style_header_total)
  show "\<forall>f\<in>set (align_rows 2 4 1 3 wrap
        @ [set_col_widths [(1, 14), (2, 22), (3, 110)],
           apply_table (lit ''RoadmapTable'') 1 1 4 3]). never_raises f"
    using align_rows_total[of 2 1 4 3 wrap]
    by (auto intro!: total_set_col_widths total_apply_table)
  show "list_all storable [PStr (lit ''Horizon''), PStr (lit ''Focus''), PStr (lit ''Actions'')]"
    by (simp add: storable_lit)
  show "list_all (list_all storable) (map roadmap_row roadmap)"
    by (simp add: roadmap_def roadmap_row_def storable_lit)
qed

subsection \<open>Sheet: Overview\<close>

lemma str_nat_legal: "list_all (\<lambda>c. \<not> illegal_character c) (str_nat n)"
proof (induction n rule: str_nat.induct)
  case (1 n)
  show ?case
  proof (cases "n < 10")
    case True
    then show ?thesis by (simp add: str_nat.simps[of n] illegal_character_def)
  next
    case False
    with 1 show ?thesis by (simp add: str_nat.simps[of n] illegal_character_def)
  qed
qed

lemma zeros_legal: "list_all (\<lambda>c. \<not> illegal_character c) (replicate n 48)"
  by (induction n) (simp_all add: illegal_character_def)

lemma isoformat_storable: "storable (PStr (isoformat d))"
  by (rule storable_legal)
    (simp add: isoformat_def zfill_def str_nat_legal legal_lit zeros_legal)

lemma overview_total:
  assumes "storable (PStr md)"
  shows "\<forall>f\<in>set (overview_steps md d). never_raises f"
  unfolding overview_steps_def
  using assms isoformat_storable[of d]
  by (auto intro!: total_ws_setitem[OF addresses(1)] total_ws_setitem[OF addresses(2)]
      total_ws_setitem[OF addresses(3)] total_ws_setitem[OF addresses(4)]
      total_ws_setitem[OF addresses(5)] total_ws_setitem[OF addresses(6)]
      total_ws_setitem[OF addresses(7)] total_style_item[OF addresses(1)]
      total_style_item[OF addresses(2)] total_style_item[OF addresses(4)]
      total_style_item[OF addresses(6)] total_style_item[OF addresses(7)]
      total_set_col_widths storable_lit storable_legal legal_lit)

lemma overview_ok: "storable (PStr md) \<Longrightarrow> is_ok (run_steps (overview_steps md d) ws0)"
  using total_run_steps[OF overview_total] by (simp add: never_raises_def)

lemma overview_result:
  assumes "run_steps (overview_steps md d) ws0 = Inr ws"
  shows "title ws = lit ''Overview''" and "tables ws = tables ws0"
    and "auto_filter_ref ws = auto_filter_ref ws0"
    and "value_at ws (7, 1) = stored (PStr md)" and "storable (PStr md)"
proof -
  have "\<forall>f\<in>set (overview_steps md d). keeps tables f"
    unfolding overview_steps_def by (auto intro!: keeps_intros)
  from keepsD[OF keeps_run_steps[OF this] assms] show "tables ws = tables ws0" .
  have "\<forall>f\<in>set (overview_steps md d). keeps auto_filter_ref f"
    unfolding overview_steps_def by (auto intro!: keeps_intros)
  from keepsD[OF keeps_run_steps[OF this] assms] show "auto_filter_ref ws = auto_filter_ref ws0" .
  have ne: "overview_steps md d \<noteq> []" by (simp add: overview_steps_def)
  have hd: "overview_steps md d = set_title (lit ''Overview'') # tl (overview_steps md d)"
    by (simp add: overview_steps_def)
  have kt: "\<forall>f\<in>set (tl (overview_steps md d)). keeps title f"
    unfolding overview_steps_def by (auto intro!: keeps_intros)
  from assms obtain y where y: "set_title (lit ''Overview'') ws0 = Inr y"
    "run_steps (tl (overview_steps md d)) y = Inr ws"
    using run_steps_ConsD[of "set_title (lit ''Overview'')" "tl (overview_steps md d)" ws0 ws] hd
    by metis
  from keepsD[OF keeps_run_steps[OF kt] y(2)] y(1) show "title ws = lit ''Overview''"
    by (auto simp: set_title_def)
  define P where "P = [set_title (lit ''Overview''),
      set_freeze_panes (lit ''A6''),
      ws_setitem (lit ''A1'') (PStr (lit ''Well-Architected Framework (WAF) Assessment'')),
      style_item (lit ''A1'') (set_font (Font (Some 16) True)),
      ws_setitem (lit ''A3'') (PStr (lit ''Assessment Date'')),
      ws_setitem (lit ''B3'') (PStr (isoformat d)),
      ws_setitem (lit ''A4'') (PStr (lit ''Architecture Summary'')),
      ws_setitem (lit ''B4'')
        (PStr (lit ''Hub-and-spoke AKS with Application Gateway '' @ rightwards_arrow
               @ lit '' ILB '' @ rightwards_arrow
               @ lit '' Traefik, Private Link, Azure Firewall, Bastion, and Azure Monitor''))]
     @ map (\<lambda>addr. style_item addr (set_font (Font None True))) [lit ''A3'', lit ''A4'']
     @ [ws_setitem (lit ''A6'') (PStr (lit ''Source Architecture Document (excerpt)'')),
        style_item (lit ''A6'') (set_font (Font None True))]"
  define L where "L = [style_item (lit ''A7'') (set_alignment (Alignment None (Some (lit ''top'')) (Some True))),
        set_col_widths [(1, 28), (2, 120)],
        set_row_height 7 320]"
  have form: "overview_steps md d = P @ (ws_setitem (lit ''A7'') (PStr md) # L)"
    unfolding overview_steps_def P_def L_def by simp
  from assms[unfolded form] obtain w1 where w1: "run_steps P ws0 = Inr w1"
    and r: "run_steps (ws_setitem (lit ''A7'') (PStr md) # L) w1 = Inr ws"
    by (rule run_steps_appendD)
  from r obtain w2 where w2: "ws_setitem (lit ''A7'') (PStr md) w1 = Inr w2"
    and w3: "run_steps L w2 = Inr ws"
    by (rule run_steps_ConsD)
  note s = ws_setitem_result[OF addresses(7) w2]
  show "storable (PStr md)" by (rule s(3))
  have "\<forall>f\<in>set L. keeps value_at f"
    unfolding L_def by (auto intro!: keeps_value_at)
  from keepsD[OF keeps_run_steps[OF this] w3] have "value_at ws = value_at w2" .
  then show "value_at ws (7, 1) = stored (PStr md)" using s(2) by simp
qed

subsection \<open>Sheet: Support Cases\<close>

lemma support_empty:
  "run_steps (support_cases_steps []) ws0 = Inr (ws0\<lparr>freeze_panes := Some (lit ''A2'')\<rparr>)"
  by (simp add: support_cases_steps_def set_freeze_panes_def)

lemma support_form:
  assumes "support_cases \<noteq> []"
  shows "support_cases_steps support_cases =
     [set_freeze_panes (lit ''A2''), ws_append (map key_value (keys (hd support_cases)))]
     @ style_header (length (keys (hd support_cases))) header_alignment
     @ map ws_append (map (\<lambda>item. map (\<lambda>h. dict_get item h (PStr [])) (keys (hd support_cases)))
                          support_cases)
     @ (align_rows 2 (1 + length support_cases) 1 (length (keys (hd support_cases))) wrap
        @ [set_col_widths support_widths,
           apply_table (lit ''SupportCasesTable'') 1 1 (1 + length support_cases)
             (length (keys (hd support_cases))),
           set_auto_filter_to_dimensions])"
  using assms unfolding support_cases_steps_def by (simp add: comp_def Let_def)

lemma run_steps_snoc: "run_steps fs x = Inr y \<Longrightarrow> run_steps (fs @ gs) x = run_steps gs y"
  by (simp add: run_steps_append)

lemma Min_interval: "a \<le> b \<Longrightarrow> Min {a..b::nat} = a"
  by (rule Min_eqI) auto

lemma Max_interval: "a \<le> b \<Longrightarrow> Max {a..b::nat} = b"
  by (rule Max_eqI) auto

lemma dimensions_rect:
  assumes "cell_keys ws = {1..R} \<times> {1..m}" "1 \<le> R" "1 \<le> m"
  shows "dimensions ws =
     (case get_column_letter m of
        Inl e \<Rightarrow> Inl e
      | Inr b \<Rightarrow> Inr (lit ''A'' @ str_nat 1 @ lit '':'' @ b @ str_nat R))"
proof -
  have ne: "cells ws \<noteq> []"
  proof
    assume "cells ws = []"
    then have "cell_keys ws = {}" by (simp add: cell_keys_def)
    moreover have "(1, 1) \<in> cell_keys ws" unfolding assms(1) using assms(2,3) by simp
    ultimately show False by simp
  qed
  have r: "set (map (fst \<circ> fst) (cells ws)) = {1..R}"
  proof -
    have "set (map (fst \<circ> fst) (cells ws)) = fst ` cell_keys ws"
      by (simp add: cell_keys_def image_comp)
    also have "\<dots> = {1..R}" unfolding assms(1) using assms(3) by auto
    finally show ?thesis .
  qed
  have c: "set (map (snd \<circ> fst) (cells ws)) = {1..m}"
  proof -
    have "set (map (snd \<circ> fst) (cells ws)) = snd ` cell_keys ws"
      by (simp add: cell_keys_def image_comp)
    also have "\<dots> = {1..m}" unfolding assms(1) using assms(2) by auto
    finally show ?thesis .
  qed
  show ?thesis
    unfolding dimensions_def Let_def r c using ne assms(2,3)
    by (simp add: Min_interval Max_interval split: sum.splits)
qed

lemma support_result:
  assumes ne: "support_cases \<noteq> []"
    and run: "run_steps (support_cases_steps support_cases) (new_worksheet t) = Inr ws"
  shows "cell_keys ws = {1..1 + length support_cases} \<times> {1..length (keys (hd support_cases))}"
    and "\<And>j. j < length (keys (hd support_cases)) \<Longrightarrow>
           value_at ws (1, j + 1) = stored (key_value (keys (hd support_cases) ! j))"
    and "\<And>i j. i < length support_cases \<Longrightarrow> j < length (keys (hd support_cases)) \<Longrightarrow>
           value_at ws (i + 2, j + 1) =
             stored (dict_get (support_cases ! i) (keys (hd support_cases) ! j) (PStr []))"
    and "list_all storable (map key_value (keys (hd support_cases)))"
    and "list_all (list_all storable)
           (map (\<lambda>item. map (\<lambda>h. dict_get item h (PStr [])) (keys (hd support_cases))) support_cases)"
    and "title ws = t"
    and "\<exists>b. get_column_letter (length (keys (hd support_cases))) = Inr b \<and>
           tables ws =
             [\<lparr>displayName = lit ''SupportCasesTable'',
               ref = lit ''A1:'' @ b @ str_nat (1 + length support_cases),
               tableStyleInfo = Some \<lparr>style_name = lit ''TableStyleMedium9'',
                 showFirstColumn = False, showLastColumn = False, showRowStripes = True,
                 showColumnStripes = False\<rparr>\<rparr>] \<and>
           auto_filter_ref ws = Some (lit ''A1:'' @ b @ str_nat (1 + length support_cases))"
proof -
  let ?headers = "keys (hd support_cases)"
  let ?m = "length ?headers"
  let ?n = "length support_cases"
  let ?rows = "map (\<lambda>item. map (\<lambda>h. dict_get item h (PStr [])) ?headers) support_cases"
  have len: "\<forall>row\<in>set ?rows. length row = ?m" by auto
  have T: "\<forall>f\<in>set (align_rows 2 (1 + ?n) 1 ?m wrap
        @ [set_col_widths support_widths,
           apply_table (lit ''SupportCasesTable'') 1 1 (1 + ?n) ?m,
           set_auto_filter_to_dimensions]).
       style_in ({1..1 + ?n} \<times> {1..?m}) f \<or> grid_step f"
  proof -
    have sub: "{2..1 + ?n} \<times> {1..?m} \<subseteq> {1..1 + ?n} \<times> {1..?m}" by auto
    have "\<forall>f\<in>set (align_rows 2 (1 + ?n) 1 ?m wrap). style_in ({1..1 + ?n} \<times> {1..?m}) f \<or> grid_step f"
      by (rule align_rows_within[OF _ _ sub]) simp_all
    then show ?thesis by auto
  qed
  have lh: "length (map key_value ?headers) = ?m" by simp
  have lr: "length ?rows = ?n" by simp
  note ts = table_sheet_facts[OF fresh_sheet(1) fresh_sheet(2) grid_step_simps(2) lh lr len
      style_header_within T run[unfolded support_form[OF ne]]]
  show keys: "cell_keys ws = {1..1 + ?n} \<times> {1..?m}" by (rule ts(1))
  show "\<And>j. j < ?m \<Longrightarrow> value_at ws (1, j + 1) = stored (key_value (?headers ! j))"
    using ts(3) by simp
  show "\<And>i j. i < ?n \<Longrightarrow> j < ?m \<Longrightarrow>
           value_at ws (i + 2, j + 1) = stored (dict_get (support_cases ! i) (?headers ! j) (PStr []))"
    using ts(4) by simp
  show "list_all storable (map key_value ?headers)" by (rule ts(5))
  show "list_all (list_all storable) ?rows" by (rule ts(6))
  have "\<forall>f\<in>set (support_cases_steps support_cases). keeps title f"
    unfolding support_form[OF ne] style_header_def align_rows_def
    by (auto intro!: keeps_intros)
  from keepsD[OF keeps_run_steps[OF this] run] show "title ws = t" by simp
  define P where "P = [set_freeze_panes (lit ''A2''), ws_append (map key_value ?headers)]
     @ style_header ?m header_alignment
     @ map ws_append ?rows
     @ align_rows 2 (1 + ?n) 1 ?m wrap
     @ [set_col_widths support_widths]"
  have form: "support_cases_steps support_cases =
      P @ [apply_table (lit ''SupportCasesTable'') 1 1 (1 + ?n) ?m, set_auto_filter_to_dimensions]"
    unfolding support_form[OF ne] P_def by simp
  have kP: "\<forall>f\<in>set P. keeps tables f"
    unfolding P_def style_header_def align_rows_def by (auto intro!: keeps_intros)
  have kP': "\<forall>f\<in>set P. keeps auto_filter_ref f"
    unfolding P_def style_header_def align_rows_def by (auto intro!: keeps_intros)
  from run[unfolded form] obtain y where y: "run_steps P (new_worksheet t) = Inr y"
    and r: "run_steps [apply_table (lit ''SupportCasesTable'') 1 1 (1 + ?n) ?m,
                       set_auto_filter_to_dimensions] y = Inr ws"
    by (rule run_steps_appendD)
  have ty: "tables y = []" using keepsD[OF keeps_run_steps[OF kP] y] by simp
  from r obtain z where z: "apply_table (lit ''SupportCasesTable'') 1 1 (1 + ?n) ?m y = Inr z"
    and w: "set_auto_filter_to_dimensions z = Inr ws"
    by (auto split: sum.splits)
  from apply_table_result[OF z] obtain b where b: "get_column_letter ?m = Inr b"
    and tz: "tables z = tables y @
       [\<lparr>displayName = lit ''SupportCasesTable'',
         ref = lit ''A'' @ str_nat 1 @ lit '':'' @ b @ str_nat (1 + ?n),
         tableStyleInfo = Some \<lparr>style_name = lit ''TableStyleMedium9'', showFirstColumn = False,
           showLastColumn = False, showRowStripes = True, showColumnStripes = False\<rparr>\<rparr>]"
    by auto
  have m1: "1 \<le> ?m" using b by (auto simp: get_column_letter_def split: if_splits)
  have kz: "cell_keys z = {1..1 + ?n} \<times> {1..?m}"
    using grid_stepD(3)[OF grid_step_simps(8) w] keys by simp
  have dz: "dimensions z = Inr (lit ''A'' @ str_nat 1 @ lit '':'' @ b @ str_nat (1 + ?n))"
    using dimensions_rect[OF kz _ m1] b by simp
  have A1: "lit ''A'' @ str_nat 1 @ lit '':'' @ b @ str_nat (1 + ?n)
      = lit ''A1:'' @ b @ str_nat (1 + ?n)"
    by (simp add: lit_def)
  from w dz have "ws = z\<lparr>auto_filter_ref := Some (lit ''A'' @ str_nat 1 @ lit '':'' @ b @ str_nat (1 + ?n))\<rparr>"
    by (simp add: set_auto_filter_to_dimensions_def)
  then have "tables ws = tables z"
    and "auto_filter_ref ws = Some (lit ''A'' @ str_nat 1 @ lit '':'' @ b @ str_nat (1 + ?n))"
    by simp_all
  with tz ty b A1
  show "\<exists>b. get_column_letter ?m = Inr b \<and>
           tables ws =
             [\<lparr>displayName = lit ''SupportCasesTable'',
               ref = lit ''A1:'' @ b @ str_nat (1 + ?n),
               tableStyleInfo = Some \<lparr>style_name = lit ''TableStyleMedium9'',
                 showFirstColumn = False, showLastColumn = False, showRowStripes = True,
                 showColumnStripes = False\<rparr>\<rparr>] \<and>
           auto_filter_ref ws = Some (lit ''A1:'' @ b @ str_nat (1 + ?n))"
    by simp
qed

lemma support_ok:
  assumes ne: "support_cases \<noteq> []"
    and m: "1 \<le> length (keys (hd support_cases))" "length (keys (hd support_cases)) \<le> 18278"
    and n: "1 + length support_cases \<le> 1048576"
    and h: "list_all storable (map key_value (keys (hd support_cases)))"
    and v: "list_all (list_all storable)
           (map (\<lambda>item. map (\<lambda>h. dict_get item h (PStr [])) (keys (hd support_cases))) support_cases)"
  shows "is_ok (run_steps (support_cases_steps support_cases) (new_worksheet t))"
proof -
  let ?headers = "keys (hd support_cases)"
  let ?m = "length ?headers"
  let ?n = "length support_cases"
  let ?rows = "map (\<lambda>item. map (\<lambda>h. dict_get item h (PStr [])) ?headers) support_cases"
  let ?T = "align_rows 2 (1 + ?n) 1 ?m wrap
        @ [set_col_widths support_widths,
           apply_table (lit ''SupportCasesTable'') 1 1 (1 + ?n) ?m]"
  let ?S = "[set_freeze_panes (lit ''A2''), ws_append (map key_value ?headers)]
     @ style_header ?m header_alignment @ map ws_append ?rows @ ?T"
  have form: "support_cases_steps support_cases = ?S @ [set_auto_filter_to_dimensions]"
    unfolding support_form[OF ne] by simp
  have tT: "\<forall>f\<in>set ?T. never_raises f"
    using align_rows_total[of 2 1 "1 + ?n" ?m wrap] m n
    by (auto simp: support_widths_def intro!: total_set_col_widths total_apply_table)
  have "is_ok (run_steps ?S (new_worksheet t))"
    by (rule table_sheet_ok[OF total_simps(2) style_header_total tT h v])
  then obtain y where y: "run_steps ?S (new_worksheet t) = Inr y" by (auto simp: is_ok_iff)
  have len: "\<forall>row\<in>set ?rows. length row = ?m" by auto
  have T: "\<forall>f\<in>set ?T. style_in ({1..1 + ?n} \<times> {1..?m}) f \<or> grid_step f"
  proof -
    have sub: "{2..1 + ?n} \<times> {1..?m} \<subseteq> {1..1 + ?n} \<times> {1..?m}" by auto
    have "\<forall>f\<in>set (align_rows 2 (1 + ?n) 1 ?m wrap). style_in ({1..1 + ?n} \<times> {1..?m}) f \<or> grid_step f"
      by (rule align_rows_within[OF _ _ sub]) simp_all
    then show ?thesis by auto
  qed
  have lh: "length (map key_value ?headers) = ?m" by simp
  have lr: "length ?rows = ?n" by simp
  note ts = table_sheet_facts[OF fresh_sheet(1) fresh_sheet(2) grid_step_simps(2) lh lr len
      style_header_within T y]
  from m have "get_column_letter ?m = Inr (column_letter_loop ?m [])"
    by (simp add: get_column_letter_def)
  with dimensions_rect[OF ts(1) _ m(1)] have "is_ok (dimensions y)" by simp
  then have "is_ok (set_auto_filter_to_dimensions y)"
    by (auto simp: set_auto_filter_to_dimensions_def is_ok_iff)
  moreover have "run_steps (?S @ [set_auto_filter_to_dimensions]) (new_worksheet t)
      = run_steps [set_auto_filter_to_dimensions] y"
    by (rule run_steps_snoc[OF y])
  moreover have "run_steps [set_auto_filter_to_dimensions] y = set_auto_filter_to_dimensions y"
    by (cases "set_auto_filter_to_dimensions y") simp_all
  ultimately show ?thesis unfolding form by simp
qed

subsection \<open>The workbook\<close>

lemma sheet_section_eq:
  "sheet_section t steps wb =
     (case run_steps steps (new_worksheet t) of
        Inl e \<Rightarrow> Inl e
      | Inr sh \<Rightarrow> Inr (wb\<lparr>sheets := sheets wb @ [sh]\<rparr>))"
  by (simp add: sheet_section_def create_sheet_def on_sheet_def nth_append split: sum.splits)

lemma assemble_workbook_eq:
  "assemble_workbook md support_cases d now =
     (case run_steps (overview_steps md d) (new_worksheet (lit ''Sheet'')) of
        Inl e \<Rightarrow> Inl e
      | Inr s0 \<Rightarrow>
     (case run_steps scores_steps (new_worksheet (lit ''Scores'')) of
        Inl e \<Rightarrow> Inl e
      | Inr s1 \<Rightarrow>
     (case run_steps recommendations_steps (new_worksheet (lit ''Recommendations'')) of
        Inl e \<Rightarrow> Inl e
      | Inr s2 \<Rightarrow>
     (case run_steps roadmap_steps (new_worksheet (lit ''Roadmap'')) of
        Inl e \<Rightarrow> Inl e
      | Inr s3 \<Rightarrow>
     (case run_steps (support_cases_steps support_cases) (new_worksheet (lit ''SupportCases'')) of
        Inl e \<Rightarrow> Inl e
      | Inr s4 \<Rightarrow>
          Inr \<lparr>sheets = [s0, s1, s2, s3, s4],
               properties_title = Some (lit ''Azure WAF Assessment''),
               properties_created = Some now\<rparr>)))))"
  unfolding assemble_workbook_def run_steps.simps sheet_section_eq
  by (simp add: on_sheet_def Workbook_def split: sum.splits)

lemma assemble_workbook_sheets:
  assumes "assemble_workbook md support_cases d now = Inr wb"
  obtains s0 s1 s2 s3 s4 where
    "run_steps (overview_steps md d) (new_worksheet (lit ''Sheet'')) = Inr s0"
    "run_steps scores_steps (new_worksheet (lit ''Scores'')) = Inr s1"
    "run_steps recommendations_steps (new_worksheet (lit ''Recommendations'')) = Inr s2"
    "run_steps roadmap_steps (new_worksheet (lit ''Roadmap'')) = Inr s3"
    "run_steps (support_cases_steps support_cases) (new_worksheet (lit ''SupportCases'')) = Inr s4"
    "wb = \<lparr>sheets = [s0, s1, s2, s3, s4],
           properties_title = Some (lit ''Azure WAF Assessment''),
           properties_created = Some now\<rparr>"
  using assms unfolding assemble_workbook_eq by (auto split: sum.splits)

lemma assemble_workbook_ok:
  "is_ok (assemble_workbook md support_cases d now) \<longleftrightarrow>
     is_ok (run_steps (overview_steps md d) (new_worksheet (lit ''Sheet''))) \<and>
     is_ok (run_steps (support_cases_steps support_cases) (new_worksheet (lit ''SupportCases'')))"
  using scores_ok[of "new_worksheet (lit ''Scores'')"]
    recommendations_ok[of "new_worksheet (lit ''Recommendations'')"]
    roadmap_ok[of "new_worksheet (lit ''Roadmap'')"]
  unfolding assemble_workbook_eq by (auto simp: is_ok_iff split: sum.splits)

subsection \<open>The file system\<close>

lemma parent_prefix: "prefix (parent p) p"
  by (simp add: parent_def prefixeq_butlast)

lemma os_mkdir_result:
  assumes "os_mkdir p fs = Inr fs'"
  shows "fs' = fs(p \<mapsto> Directory)" "\<not> path_exists fs p" "is_dir fs (parent p)" "p \<noteq> []"
  using assms
  by (auto simp: os_mkdir_def is_dir_def path_exists_def node_at_def
      split: if_splits option.splits node.splits)

lemma os_mkdir_fnf:
  assumes "os_mkdir p fs = Inl (FileNotFoundError m)"
  shows "node_at fs (parent p) = None" "\<not> path_exists fs p"
  using assms
  by (auto simp: os_mkdir_def split: if_splits option.splits node.splits)

lemma is_dir_upd: "p \<noteq> [] \<Longrightarrow> is_dir (fs(p \<mapsto> Directory)) p"
  by (simp add: is_dir_def node_at_def)

lemma mkdir_existing: "is_dir fs p \<Longrightarrow> mkdir parents True p fs = Inr fs"
  by (simp add: mkdir.simps[of parents True p fs] os_mkdir_def path_exists_def is_dir_def)

lemma mkdir_result:
  assumes "mkdir parents exist_ok p fs = Inr fs'"
  shows "is_dir fs' p \<and>
    (\<forall>q. fs' q = fs q \<or> (prefix q p \<and> q \<noteq> [] \<and> \<not> path_exists fs q \<and> fs' q = Some Directory))"
  using assms
proof (induction parents exist_ok p fs arbitrary: fs' rule: mkdir.induct)
  case (1 parents exist_ok p fs)
  show ?case
  proof (cases "os_mkdir p fs")
    case (Inr fs1)
    with "1.prems" have eq: "fs' = fs1" by (simp add: mkdir.simps[of parents exist_ok p fs])
    note r = os_mkdir_result[OF Inr]
    have d: "is_dir (fs(p \<mapsto> Directory)) p" by (rule is_dir_upd[OF r(4)])
    have f: "\<forall>q. (fs(p \<mapsto> Directory)) q = fs q \<or>
        (prefix q p \<and> q \<noteq> [] \<and> \<not> path_exists fs q \<and> (fs(p \<mapsto> Directory)) q = Some Directory)"
      using r(2,4) by auto
    have "fs' = fs(p \<mapsto> Directory)" using eq r(1) by simp
    with d f show ?thesis by blast
  next
    case (Inl e)
    show ?thesis
    proof (cases e)
      case (FileNotFoundError m)
      with Inl "1.prems" have go: "\<not> (\<not> parents \<or> parent p = p)"
        by (auto simp: mkdir.simps[of parents exist_ok p fs] split: if_splits)
      with Inl FileNotFoundError "1.prems" obtain fs1 where
        fs1: "mkdir True True (parent p) fs = Inr fs1" and
        fs2: "mkdir False exist_ok p fs1 = Inr fs'"
        by (auto simp: mkdir.simps[of parents exist_ok p fs] split: sum.splits)
      from Inl FileNotFoundError have o: "os_mkdir p fs = Inl (FileNotFoundError m)" by simp
      note ih1 = "1.IH"(1)[OF Inl FileNotFoundError go fs1]
      note ih2 = "1.IH"(2)[OF Inl FileNotFoundError go fs1 fs2]
      have fr: "\<forall>q. fs' q = fs q \<or> (prefix q p \<and> q \<noteq> [] \<and> \<not> path_exists fs q \<and> fs' q = Some Directory)"
      proof
        fix q
        from ih1 have a: "fs1 q = fs q \<or> (prefix q (parent p) \<and> q \<noteq> [] \<and> \<not> path_exists fs q \<and> fs1 q = Some Directory)"
          by blast
        from ih2 have b: "fs' q = fs1 q \<or> (prefix q p \<and> q \<noteq> [] \<and> \<not> path_exists fs1 q \<and> fs' q = Some Directory)"
          by blast
        have pp: "prefix q (parent p) \<Longrightarrow> prefix q p"
          using parent_prefix[of p] by (metis prefix_order.order_trans)
        show "fs' q = fs q \<or> (prefix q p \<and> q \<noteq> [] \<and> \<not> path_exists fs q \<and> fs' q = Some Directory)"
        proof (cases "fs' q = fs1 q")
          case True
          with a pp show ?thesis by auto
        next
          case False
          with b have c: "prefix q p" "q \<noteq> []" "\<not> path_exists fs1 q" "fs' q = Some Directory" by auto
          from c(2,3) have "fs1 q = None" by (simp add: path_exists_def node_at_def)
          with a have "fs q = None" by auto
          with c show ?thesis by (simp add: path_exists_def node_at_def)
        qed
      qed
      with ih2 show ?thesis by blast
    next
      case IsADirectoryError
      with Inl "1.prems" show ?thesis
        by (auto simp: mkdir.simps[of parents exist_ok p fs] split: if_splits)
    next
      case NotADirectoryError
      with Inl "1.prems" show ?thesis
        by (auto simp: mkdir.simps[of parents exist_ok p fs] split: if_splits)
    next
      case FileExistsError
      with Inl "1.prems" show ?thesis
        by (auto simp: mkdir.simps[of parents exist_ok p fs] split: if_splits)
    next
      case UnicodeDecodeError
      with Inl "1.prems" show ?thesis
        by (auto simp: mkdir.simps[of parents exist_ok p fs] split: if_splits)
    next
      case IllegalCharacterError
      with Inl "1.prems" show ?thesis
        by (auto simp: mkdir.simps[of parents exist_ok p fs] split: if_splits)
    next
      case ValueError
      with Inl "1.prems" show ?thesis
        by (auto simp: mkdir.simps[of parents exist_ok p fs] split: if_splits)
    next
      case CsvError
      with Inl "1.prems" show ?thesis
        by (auto simp: mkdir.simps[of parents exist_ok p fs] split: if_splits)
    next
      case NoSuchSheet
      with Inl "1.prems" show ?thesis
        by (auto simp: mkdir.simps[of parents exist_ok p fs] split: if_splits)
    qed
  qed
qed

lemma mkdir_no_parents_fnf:
  assumes "node_at fs (parent p) \<noteq> None"
  shows "mkdir False exist_ok p fs \<noteq> Inl (FileNotFoundError m)"
proof
  assume a: "mkdir False exist_ok p fs = Inl (FileNotFoundError m)"
  show False
  proof (cases "os_mkdir p fs")
    case (Inr fs1)
    with a show False by (simp add: mkdir.simps[of False exist_ok p fs])
  next
    case (Inl e)
    show False
    proof (cases "\<exists>m'. e = FileNotFoundError m'")
      case True
      then obtain m' where "os_mkdir p fs = Inl (FileNotFoundError m')" using Inl by auto
      from os_mkdir_fnf(1)[OF this] assms show False by simp
    next
      case False
      with Inl a show False
        by (cases e) (auto simp: mkdir.simps[of False exist_ok p fs] split: if_splits)
    qed
  qed
qed

lemma mkdir_parents_fnf: "mkdir True exist_ok p fs \<noteq> Inl (FileNotFoundError m)"
proof (induction "length p" arbitrary: p exist_ok fs m rule: less_induct)
  case less
  show ?case
  proof
    assume a: "mkdir True exist_ok p fs = Inl (FileNotFoundError m)"
    show False
    proof (cases "os_mkdir p fs")
      case (Inr fs1)
      with a show False by (simp add: mkdir.simps[of True exist_ok p fs])
    next
      case (Inl e)
      show False
      proof (cases "\<exists>m'. e = FileNotFoundError m'")
        case True
        then obtain m' where o: "os_mkdir p fs = Inl (FileNotFoundError m')" using Inl by auto
        from os_mkdir_fnf[OF o] have pn: "p \<noteq> []"
          by (auto simp: path_exists_def node_at_def)
        then have ne: "parent p \<noteq> p" and lt: "length (parent p) < length p"
          by (auto simp: parent_def) (metis append_butlast_last_id length_append_singleton lessI not_less_iff_gr_or_eq)
        from a o ne have b: "(case mkdir True True (parent p) fs of Inl e \<Rightarrow> Inl e
            | Inr fs' \<Rightarrow> mkdir False exist_ok p fs') = Inl (FileNotFoundError m)"
          by (simp add: mkdir.simps[of True exist_ok p fs])
        show False
        proof (cases "mkdir True True (parent p) fs")
          case (Inl e')
          with b have "mkdir True True (parent p) fs = Inl (FileNotFoundError m)" by simp
          with less[OF lt] show False by blast
        next
          case (Inr fs1)
          with b have c: "mkdir False exist_ok p fs1 = Inl (FileNotFoundError m)" by simp
          from mkdir_result[OF Inr] have "is_dir fs1 (parent p)" by blast
          then have "node_at fs1 (parent p) \<noteq> None" by (simp add: is_dir_def)
          from mkdir_no_parents_fnf[OF this] c show False by blast
        qed
      next
        case False
        with Inl a show False
          by (cases e) (auto simp: mkdir.simps[of True exist_ok p fs] split: if_splits)
      qed
    qed
  qed
qed

lemma wb_save_result:
  assumes "wb_save wb p fs = Inr fs'"
  shows "fs' = fs(p \<mapsto> File (Xlsx wb))" "\<not> is_dir fs p" "is_dir fs (parent p)"
  using assms
  by (auto simp: wb_save_def is_dir_def split: if_splits option.splits node.splits)

lemma wb_save_ok: "\<not> is_dir fs p \<Longrightarrow> is_dir fs (parent p) \<Longrightarrow> is_ok (wb_save wb p fs)"
  by (simp add: wb_save_def is_dir_def)

lemma wb_save_fnf: "is_dir fs (parent p) \<Longrightarrow> wb_save wb p fs \<noteq> Inl (FileNotFoundError m)"
  by (simp add: wb_save_def is_dir_def)

subsection \<open>The exceptions of the spreadsheet steps\<close>

lemma raises_in_run_steps:
  assumes "\<forall>f\<in>set fs. raises_in E f"
  shows "raises_in E (run_steps fs)"
  unfolding raises_in_def
proof (intro allI impI)
  fix x e
  assume "run_steps fs x = Inl e"
  with assms show "e \<in> E"
  proof (induction fs arbitrary: x)
    case Nil
    then show ?case by simp
  next
    case (Cons f fs)
    show ?case
    proof (cases "f x")
      case (Inl e')
      with Cons.prems have "e' = e" "raises_in E f" by simp_all
      with Inl show ?thesis by (auto simp: raises_in_def)
    next
      case (Inr y)
      with Cons.prems have "run_steps fs y = Inl e" by simp
      from Cons.IH[OF _ this] Cons.prems(1) show ?thesis by simp
    qed
  qed
qed

lemma bind_value_errors: "bind_value v = Inl e \<Longrightarrow> e \<in> library_errors"
  by (cases v) (auto simp: library_errors_def check_string_def split: if_splits sum.splits)

lemma append_cells_errors: "append_cells R c vs cs = Inl e \<Longrightarrow> e \<in> library_errors"
proof (induction vs arbitrary: c cs)
  case Nil
  then show ?case by simp
next
  case (Cons v vs)
  show ?case
  proof (cases "bind_value v")
    case (Inl e')
    with Cons.prems have "e' = e" by simp
    with Inl bind_value_errors show ?thesis by blast
  next
    case (Inr v')
    with Cons.prems Cons.IH show ?thesis by simp
  qed
qed

lemma get_column_letter_errors: "get_column_letter n = Inl e \<Longrightarrow> e \<in> library_errors"
  by (auto simp: library_errors_def get_column_letter_def split: if_splits)

lemma set_col_widths_errors: "set_col_widths widths ws = Inl e \<Longrightarrow> e \<in> library_errors"
proof (induction widths arbitrary: ws)
  case Nil
  then show ?case by simp
next
  case (Cons a widths)
  obtain col_idx width where a: "a = (col_idx, width)" by (cases a)
  show ?case
  proof (cases "get_column_letter col_idx")
    case (Inl e')
    with Cons.prems a have "e' = e" by simp
    with Inl get_column_letter_errors show ?thesis by blast
  next
    case (Inr letter)
    with Cons.prems a Cons.IH show ?thesis by simp
  qed
qed

lemma ws_cell_errors: "ws_cell r c ws = Inl e \<Longrightarrow> e \<in> library_errors"
  by (auto simp: library_errors_def ws_cell_def split: if_splits)

lemma style_cell_errors: "style_cell r c g ws = Inl e \<Longrightarrow> e \<in> library_errors"
  using ws_cell_errors by (auto simp: style_cell_def split: sum.splits)

lemma dimensions_errors: "dimensions ws = Inl e \<Longrightarrow> e \<in> library_errors"
  using get_column_letter_errors
  by (auto simp: dimensions_def Let_def split: sum.splits if_splits)

lemma step_errors:
  "raises_in library_errors (ws_append vs)"
  "raises_in library_errors (style_cell r c g)"
  "raises_in library_errors (ws_setitem addr v)"
  "raises_in library_errors (style_item addr g)"
  "raises_in library_errors (set_title t)"
  "raises_in library_errors (set_freeze_panes a)"
  "raises_in library_errors (set_row_height rr h)"
  "raises_in library_errors (add_conditional_formatting rs rule)"
  "raises_in library_errors (set_col_widths widths)"
  "raises_in library_errors (apply_table nm sr sc er ec)"
  "raises_in library_errors set_auto_filter_to_dimensions"
proof -
  show "raises_in library_errors (ws_append vs)"
    using append_cells_errors
    by (auto simp: raises_in_def ws_append_def Let_def split: sum.splits)
  show "raises_in library_errors (style_cell r c g)"
    using style_cell_errors by (auto simp: raises_in_def)
  show "raises_in library_errors (ws_setitem addr v)"
    using bind_value_errors ws_cell_errors
    by (auto simp: raises_in_def ws_setitem_def library_errors_def
        split: sum.splits option.splits)
  show "raises_in library_errors (style_item addr g)"
    using style_cell_errors
    by (auto simp: raises_in_def style_item_def library_errors_def split: option.splits)
  show "raises_in library_errors (set_title t)" "raises_in library_errors (set_freeze_panes a)"
    "raises_in library_errors (set_row_height rr h)"
    "raises_in library_errors (add_conditional_formatting rs rule)"
    by (simp_all add: raises_in_def set_title_def set_freeze_panes_def set_row_height_def
        add_conditional_formatting_def)
  show "raises_in library_errors (set_col_widths widths)"
    using set_col_widths_errors by (auto simp: raises_in_def)
  show "raises_in library_errors (apply_table nm sr sc er ec)"
    using get_column_letter_errors
    by (auto simp: raises_in_def apply_table_def add_table_def split: sum.splits)
  show "raises_in library_errors set_auto_filter_to_dimensions"
    using dimensions_errors
    by (auto simp: raises_in_def set_auto_filter_to_dimensions_def split: sum.splits)
qed

lemma sheet_steps_errors:
  "\<forall>f\<in>set (overview_steps md d). raises_in library_errors f"
  "\<forall>f\<in>set scores_steps. raises_in library_errors f"
  "\<forall>f\<in>set recommendations_steps. raises_in library_errors f"
  "\<forall>f\<in>set roadmap_steps. raises_in library_errors f"
  "\<forall>f\<in>set (support_cases_steps support_cases). raises_in library_errors f"
  unfolding overview_steps_def scores_steps_def recommendations_steps_def roadmap_steps_def
    support_cases_steps_def style_header_def align_rows_def Let_def
  by (auto intro!: step_errors)

lemma run_errors:
  assumes "\<forall>f\<in>set fs. raises_in library_errors f" "run_steps fs x = Inl e"
  shows "e \<in> library_errors"
  using raises_in_run_steps[OF assms(1)] assms(2) by (auto simp: raises_in_def)

lemma assemble_workbook_errors:
  assumes "assemble_workbook md support_cases d now = Inl e"
  shows "e \<in> library_errors"
  using assms unfolding assemble_workbook_eq
  by (auto split: sum.splits
      dest: run_errors[OF sheet_steps_errors(1)] run_errors[OF sheet_steps_errors(2)]
        run_errors[OF sheet_steps_errors(3)] run_errors[OF sheet_steps_errors(4)]
        run_errors[OF sheet_steps_errors(5)])

subsection \<open>The records of csv.DictReader\<close>

lemma keys_dom: "fst ` set al = dom (map_of al)"
  by (simp add: dom_map_of_conv_image_fst)

lemma fold_restval_dom:
  "dom (map_of (fold (\<lambda>key. AList.update (Some key) PNone) ks d)) = Some ` set ks \<union> dom (map_of d)"
  by (induction ks arbitrary: d) (auto simp: AList.update_conv')

lemma fold_restval_None:
  "map_of (fold (\<lambda>key. AList.update (Some key) PNone) ks d) None = map_of d None"
  by (induction ks arbitrary: d) (auto simp: AList.update_conv')

lemma updates_None:
  "map_of (AList.updates (map Some ks) vs d) None = map_of d None"
proof (induction ks arbitrary: vs d)
  case Nil
  then show ?case by simp
next
  case (Cons k ks)
  then show ?case by (cases vs) (auto simp: AList.update_conv')
qed

lemma dict_row_keys:
  "fst ` set (dict_row fieldnames row) =
     Some ` set fieldnames \<union> (if length fieldnames < length row then {None} else {})"
proof -
  let ?d = "AList.updates (map Some fieldnames) (map PStr row) []"
  have d0: "dom (map_of ?d) = Some ` set (take (length row) fieldnames)"
    by (simp add: AList.updates_conv' dom_map_upds take_map)
  show ?thesis
  proof (cases "length fieldnames < length row")
    case True
    then have "take (length row) fieldnames = fieldnames" by simp
    with True d0 show ?thesis
      by (simp add: dict_row_def Let_def keys_dom AList.update_conv')
  next
    case False
    have "set (take (length row) fieldnames) \<union> set (drop (length row) fieldnames) = set fieldnames"
      by (metis append_take_drop_id set_append)
    then have "Some ` set (drop (length row) fieldnames) \<union> Some ` set (take (length row) fieldnames)
        = Some ` set fieldnames"
      by blast
    with False d0 show ?thesis
      by (auto simp: dict_row_def Let_def keys_dom fold_restval_dom)
  qed
qed

lemma dict_row_None:
  "map_of (dict_row fieldnames row) None =
     (if length fieldnames < length row then Some (PList (drop (length fieldnames) row)) else None)"
  by (auto simp: dict_row_def Let_def AList.update_conv' fold_restval_None updates_None)

text \<open>Every value of a record is a field of the row, \<^verbatim>\<open>None\<close>, or the list of the surplus.\<close>

lemma update_values:
  assumes "\<forall>p\<in>set al. P (snd p)" "P v"
  shows "\<forall>p\<in>set (AList.update k v al). P (snd p)"
  using assms by (induction al) auto

lemma updates_values:
  assumes "\<forall>p\<in>set al. P (snd p)" "\<forall>v\<in>set vs. P v"
  shows "\<forall>p\<in>set (AList.updates ks vs al). P (snd p)"
  using assms
proof (induction ks arbitrary: vs al)
  case Nil
  then show ?case by simp
next
  case (Cons k ks)
  note prems = Cons.prems and IH = Cons.IH
  show ?case
  proof (cases vs)
    case Nil
    with prems show ?thesis by simp
  next
    case vs: (Cons v vs')
    from prems(2) vs have pv: "P v" and rest: "\<forall>v\<in>set vs'. P v" by simp_all
    have "\<forall>p\<in>set (AList.update k v al). P (snd p)"
      by (rule update_values[OF prems(1) pv])
    from IH[OF this rest] have "\<forall>p\<in>set (AList.updates ks vs' (AList.update k v al)). P (snd p)" .
    then show ?thesis unfolding vs by simp
  qed
qed

lemma fold_restval_values:
  assumes "\<forall>p\<in>set d. P (snd p)" "P PNone"
  shows "\<forall>p\<in>set (fold (\<lambda>key. AList.update (Some key) PNone) ks d). P (snd p)"
  using assms
proof (induction ks arbitrary: d)
  case Nil
  then show ?case by simp
next
  case (Cons k ks)
  from update_values[OF Cons.prems] have "\<forall>p\<in>set (AList.update (Some k) PNone d). P (snd p)" .
  from Cons.IH[OF this Cons.prems(2)] show ?case by simp
qed

lemma dict_row_values:
  assumes "length row \<le> length fieldnames" "p \<in> set (dict_row fieldnames row)"
  shows "snd p = PNone \<or> (\<exists>x\<in>set row. snd p = PStr x)"
proof -
  let ?P = "\<lambda>v. v = PNone \<or> (\<exists>x\<in>set row. v = PStr x)"
  have a: "\<forall>p\<in>set (AList.updates (map Some fieldnames) (map PStr row) []). ?P (snd p)"
    by (rule updates_values) auto
  have "\<forall>p\<in>set (fold (\<lambda>key. AList.update (Some key) PNone) (drop (length row) fieldnames)
      (AList.updates (map Some fieldnames) (map PStr row) [])). ?P (snd p)"
    by (rule fold_restval_values[OF a]) simp
  with a assms show ?thesis
    by (auto simp: dict_row_def Let_def split: if_splits)
qed

lemma fold_restval_distinct:
  "distinct (map fst d) \<Longrightarrow>
     distinct (map fst (fold (\<lambda>key. AList.update (Some key) PNone) ks d))"
  by (induction ks arbitrary: d) (auto simp: AList.distinct_update)

lemma dict_row_distinct: "distinct (map fst (dict_row fieldnames row))"
proof -
  have "distinct (map fst (AList.updates (map Some fieldnames) (map PStr row) []))"
    by (rule AList.distinct_updates) simp
  then show ?thesis
    by (auto simp: dict_row_def Let_def AList.distinct_update fold_restval_distinct)
qed

lemma dict_row_length:
  assumes "length row \<le> length fieldnames"
  shows "length (keys (dict_row fieldnames row)) \<le> length fieldnames"
    and "fieldnames \<noteq> [] \<Longrightarrow> 1 \<le> length (keys (dict_row fieldnames row))"
proof -
  have "length (keys (dict_row fieldnames row)) = card (set (map fst (dict_row fieldnames row)))"
    using distinct_card[OF dict_row_distinct[of fieldnames row]] by (simp add: keys_def)
  also have "set (map fst (dict_row fieldnames row)) = Some ` set fieldnames"
    using dict_row_keys[of fieldnames row] assms by simp
  also have "card (Some ` set fieldnames) = card (set fieldnames)"
    by (simp add: card_image)
  finally have eq: "length (keys (dict_row fieldnames row)) = card (set fieldnames)" .
  show "length (keys (dict_row fieldnames row)) \<le> length fieldnames"
    unfolding eq by (rule card_length)
  show "fieldnames \<noteq> [] \<Longrightarrow> 1 \<le> length (keys (dict_row fieldnames row))"
    unfolding eq by (cases fieldnames) (auto simp: card_gt_0_iff Suc_le_eq)
qed

lemma DictReader_Nil: "DictReader [] = []"
  by (simp add: DictReader_def)

lemma DictReader_empty_iff:
  "DictReader rows = [] \<longleftrightarrow> rows = [] \<or> (\<forall>row\<in>set (tl rows). row = [])"
  by (cases rows) (auto simp: DictReader_def filter_empty_conv)

lemma DictReader_records:
  assumes "item \<in> set (DictReader rows)"
  obtains fieldnames rest row where "rows = fieldnames # rest" "row \<in> set rest" "row \<noteq> []"
    "item = dict_row fieldnames row"
  using assms by (cases rows) (auto simp: DictReader_def)

subsection \<open>build_workbook\<close>

lemma read_text_result:
  "read_text fs p = Inr md \<longleftrightarrow> (\<exists>t. node_at fs p = Some (File (Text t)) \<and> md = universal_newlines t)"
  by (auto simp: read_text_def open_text_def split: option.splits node.splits file_data.splits)

lemma read_support_cases_result:
  "read_support_cases reader fs p = Inr cs \<longleftrightarrow>
     (\<exists>t rows. node_at fs p = Some (File (Text t)) \<and> reader t = Some rows \<and> cs = DictReader rows)"
  by (auto simp: read_support_cases_def open_text_def
      split: option.splits node.splits file_data.splits)

lemma build_workbook_cases:
  assumes "build_workbook reader now fs mdp csvp outp d = Inr (fs', out)"
  obtains t1 t2 rows wb fs1 where
    "node_at fs mdp = Some (File (Text t1))" "node_at fs csvp = Some (File (Text t2))"
    "reader t2 = Some rows"
    "assemble_workbook (universal_newlines t1) (DictReader rows) d now = Inr wb"
    "mkdir True True (parent outp) fs = Inr fs1" "wb_save wb outp fs1 = Inr fs'" "out = outp"
proof -
  obtain md where md: "read_text fs mdp = Inr md"
    using assms by (cases "read_text fs mdp") (simp_all add: build_workbook_def)
  obtain cs where cs: "read_support_cases reader fs csvp = Inr cs"
    using assms md by (cases "read_support_cases reader fs csvp") (simp_all add: build_workbook_def)
  obtain wb where wb: "assemble_workbook md cs d now = Inr wb"
    using assms md cs by (cases "assemble_workbook md cs d now") (simp_all add: build_workbook_def)
  obtain fs1 where fs1: "mkdir True True (parent outp) fs = Inr fs1"
    using assms md cs wb
    by (cases "mkdir True True (parent outp) fs") (simp_all add: build_workbook_def)
  have "wb_save wb outp fs1 = Inr fs' \<and> out = outp"
    using assms md cs wb fs1
    by (cases "wb_save wb outp fs1") (simp_all add: build_workbook_def)
  then have sv: "wb_save wb outp fs1 = Inr fs'" and out: "out = outp" by simp_all
  from md obtain t1 where t1: "node_at fs mdp = Some (File (Text t1))" "md = universal_newlines t1"
    by (auto simp: read_text_result)
  from cs obtain t2 rows where t2: "node_at fs csvp = Some (File (Text t2))" "reader t2 = Some rows"
    "cs = DictReader rows"
    by (auto simp: read_support_cases_result)
  from that[OF t1(1) t2(1) t2(2) wb[unfolded t1(2) t2(3)] fs1 sv out] show ?thesis .
qed

lemma not_prefix_parent: "p \<noteq> [] \<Longrightarrow> \<not> prefix p (parent p)"
proof
  assume "p \<noteq> []" "prefix p (parent p)"
  then have "prefix p (butlast p)" by (simp add: parent_def)
  then have "length p \<le> length (butlast p)" by (rule prefix_length_le)
  with \<open>p \<noteq> []\<close> show False by (cases p rule: rev_cases) auto
qed

lemma mkdir_keeps_output:
  assumes "mkdir True True (parent p) fs = Inr fs1"
  shows "is_dir fs1 p \<longleftrightarrow> is_dir fs p"
proof (cases "p = []")
  case True
  then show ?thesis by (simp add: is_dir_def node_at_def)
next
  case False
  from mkdir_result[OF assms] not_prefix_parent[OF False] have "fs1 p = fs p" by blast
  with False show ?thesis by (simp add: is_dir_def node_at_def)
qed

lemma build_workbook_ok_iff:
  "is_ok (build_workbook reader now fs mdp csvp outp d) \<longleftrightarrow>
     (\<exists>t1 t2 rows. node_at fs mdp = Some (File (Text t1)) \<and> node_at fs csvp = Some (File (Text t2))
        \<and> reader t2 = Some rows
        \<and> is_ok (assemble_workbook (universal_newlines t1) (DictReader rows) d now))
     \<and> is_ok (mkdir True True (parent outp) fs) \<and> \<not> is_dir fs outp"
proof
  assume "is_ok (build_workbook reader now fs mdp csvp outp d)"
  then obtain fs' out where r: "build_workbook reader now fs mdp csvp outp d = Inr (fs', out)"
    by (auto simp: is_ok_iff)
  from build_workbook_cases[OF r] obtain t1 t2 rows wb fs1 where
    c: "node_at fs mdp = Some (File (Text t1))" "node_at fs csvp = Some (File (Text t2))"
    "reader t2 = Some rows"
    "assemble_workbook (universal_newlines t1) (DictReader rows) d now = Inr wb"
    "mkdir True True (parent outp) fs = Inr fs1" "wb_save wb outp fs1 = Inr fs'" "out = outp"
    by blast
  from wb_save_result(2)[OF c(6)] mkdir_keeps_output[OF c(5)] have "\<not> is_dir fs outp" by simp
  with c show "(\<exists>t1 t2 rows. node_at fs mdp = Some (File (Text t1)) \<and> node_at fs csvp = Some (File (Text t2))
        \<and> reader t2 = Some rows
        \<and> is_ok (assemble_workbook (universal_newlines t1) (DictReader rows) d now))
     \<and> is_ok (mkdir True True (parent outp) fs) \<and> \<not> is_dir fs outp"
    by auto
next
  assume a: "(\<exists>t1 t2 rows. node_at fs mdp = Some (File (Text t1)) \<and> node_at fs csvp = Some (File (Text t2))
        \<and> reader t2 = Some rows
        \<and> is_ok (assemble_workbook (universal_newlines t1) (DictReader rows) d now))
     \<and> is_ok (mkdir True True (parent outp) fs) \<and> \<not> is_dir fs outp"
  then obtain t1 t2 rows wb fs1 where
    c: "node_at fs mdp = Some (File (Text t1))" "node_at fs csvp = Some (File (Text t2))"
    "reader t2 = Some rows"
    "assemble_workbook (universal_newlines t1) (DictReader rows) d now = Inr wb"
    "mkdir True True (parent outp) fs = Inr fs1" "\<not> is_dir fs outp"
    by (auto simp: is_ok_iff)
  from mkdir_result[OF c(5)] have d1: "is_dir fs1 (parent outp)" by blast
  from mkdir_keeps_output[OF c(5)] c(6) have d2: "\<not> is_dir fs1 outp" by simp
  from wb_save_ok[OF d2 d1] obtain fs' where s: "wb_save wb outp fs1 = Inr fs'"
    by (auto simp: is_ok_iff)
  have "read_text fs mdp = Inr (universal_newlines t1)" using c(1) by (simp add: read_text_result)
  moreover have "read_support_cases reader fs csvp = Inr (DictReader rows)"
    using c(2,3) by (simp add: read_support_cases_result)
  ultimately have "build_workbook reader now fs mdp csvp outp d = Inr (fs', outp)"
    unfolding build_workbook_def using c(4,5) s by simp
  then show "is_ok (build_workbook reader now fs mdp csvp outp d)" by simp
qed

lemma build_workbook_output:
  assumes "is_ok (build_workbook reader now fs mdp csvp outp d)"
  obtains t1 t2 rows wb fs' where
    "node_at fs mdp = Some (File (Text t1))" "node_at fs csvp = Some (File (Text t2))"
    "reader t2 = Some rows"
    "assemble_workbook (universal_newlines t1) (DictReader rows) d now = Inr wb"
    "build_workbook reader now fs mdp csvp outp d = Inr (fs', outp)"
    "output_workbook (build_workbook reader now fs mdp csvp outp d) = Some wb"
proof -
  from assms obtain fs' out where r: "build_workbook reader now fs mdp csvp outp d = Inr (fs', out)"
    by (auto simp: is_ok_iff)
  from build_workbook_cases[OF r] obtain t1 t2 rows wb fs1 where
    c: "node_at fs mdp = Some (File (Text t1))" "node_at fs csvp = Some (File (Text t2))"
    "reader t2 = Some rows"
    "assemble_workbook (universal_newlines t1) (DictReader rows) d now = Inr wb"
    "mkdir True True (parent outp) fs = Inr fs1" "wb_save wb outp fs1 = Inr fs'" "out = outp"
    by blast
  from wb_save_result(1)[OF c(6)] have "fs' outp = Some (File (Xlsx wb))" by simp
  then have "output_workbook (build_workbook reader now fs mdp csvp outp d) = Some wb"
    using r c(7) by (simp add: output_workbook_def)
  from that[OF c(1) c(2) c(3) c(4) r[unfolded c(7)] this] show ?thesis .
qed

subsection \<open>Inputs the library accepts\<close>

lemma xml_char_legal: "xml_char c \<Longrightarrow> \<not> illegal_character c"
  by (auto simp: xml_char_def illegal_character_def)

lemma universal_newlines_legal: "legal_text t \<Longrightarrow> legal_text (universal_newlines t)"
  by (induction t rule: universal_newlines.induct)
    (auto simp: legal_text_def xml_char_def)

lemma universal_newlines_id: "13 \<notin> set t \<Longrightarrow> universal_newlines t = t"
  by (induction t rule: universal_newlines.induct) auto

lemma storable_legal_text: "legal_text v \<Longrightarrow> storable (PStr v)"
  by (rule storable_legal) (auto simp: legal_text_def list_all_iff xml_char_legal)

lemma dict_get_cases:
  "dict_get item h dflt = dflt \<or> (h, dict_get item h dflt) \<in> set item"
  by (auto simp: dict_get_def split: option.splits dest: map_of_SomeD)

lemma plain_csv_ok:
  assumes "plain_csv rows"
  shows "is_ok (run_steps (support_cases_steps (DictReader rows)) (new_worksheet t))"
proof (cases "DictReader rows = []")
  case True
  then show ?thesis by (simp add: support_empty)
next
  case False
  then obtain fieldnames rest where rows: "rows = fieldnames # rest"
    by (cases rows) (auto simp: DictReader_def)
  let ?data = "filter (\<lambda>row. row \<noteq> []) rest"
  have cs: "DictReader rows = map (dict_row fieldnames) ?data"
    by (simp add: rows DictReader_def)
  from False cs have dne: "?data \<noteq> []" by simp
  from assms rows have lf: "length fieldnames \<le> 18278"
    and fl: "\<forall>f\<in>set fieldnames. legal_text f"
    and rl: "\<forall>row\<in>set rest. length row \<le> length fieldnames \<and> (\<forall>x\<in>set row. legal_text x)"
    and nr: "length rest \<le> 1048575"
    by (auto simp: plain_csv_def list_all_iff)
  have "length ?data \<le> length rest" by (rule length_filter_le)
  with nr have "length ?data \<le> 1048575" by linarith
  then have nd: "1 + length (DictReader rows) \<le> 1048576" by (simp add: cs)
  have din: "\<forall>row\<in>set ?data. row \<in> set rest \<and> row \<noteq> []" by auto
  have h0: "hd ?data \<in> set ?data" by (rule hd_in_set[OF dne])
  have r0: "hd ?data \<in> set rest" "hd ?data \<noteq> []" using din h0 by blast+
  with rl have l0: "length (hd ?data) \<le> length fieldnames" by blast
  with r0(2) have fne: "fieldnames \<noteq> []" by (cases fieldnames) auto
  have hdc: "hd (DictReader rows) = dict_row fieldnames (hd ?data)"
    using dne by (simp add: cs hd_map)
  let ?headers = "keys (hd (DictReader rows))"
  have hk: "set ?headers = Some ` set fieldnames"
    using dict_row_keys[of fieldnames "hd ?data"] l0 by (simp add: hdc keys_def)
  show ?thesis
  proof (rule support_ok[OF False])
    show "1 \<le> length ?headers" unfolding hdc by (rule dict_row_length(2)[OF l0 fne])
    show "length ?headers \<le> 18278"
      unfolding hdc using dict_row_length(1)[OF l0] lf by simp
    show "1 + length (DictReader rows) \<le> 1048576" by (rule nd)
    show "list_all storable (map key_value ?headers)"
      unfolding list_all_iff
    proof
      fix v assume "v \<in> set (map key_value ?headers)"
      then obtain h where "h \<in> set ?headers" "v = key_value h" by auto
      with hk obtain f where "f \<in> set fieldnames" "v = PStr f" by (auto simp: key_value_def)
      with fl show "storable v" by (simp add: storable_legal_text)
    qed
    show "list_all (list_all storable)
        (map (\<lambda>item. map (\<lambda>h. dict_get item h (PStr [])) ?headers) (DictReader rows))"
      unfolding list_all_iff
    proof (intro ballI)
      fix vs v assume vs: "vs \<in> set (map (\<lambda>item. map (\<lambda>h. dict_get item h (PStr [])) ?headers)
          (DictReader rows))" and v: "v \<in> set vs"
      then obtain item h where item: "item \<in> set (DictReader rows)"
        and vh: "v = dict_get item h (PStr [])" by auto
      from item cs obtain row where row: "row \<in> set ?data" "item = dict_row fieldnames row" by auto
      with din rl have lr: "length row \<le> length fieldnames" and rx: "\<forall>x\<in>set row. legal_text x"
        by auto
      from dict_get_cases[of item h "PStr []"] show "storable v"
      proof
        assume "dict_get item h (PStr []) = PStr []"
        with vh show ?thesis by (simp add: storable_PStr)
      next
        assume "(h, dict_get item h (PStr [])) \<in> set item"
        with vh row(2) have "(h, v) \<in> set (dict_row fieldnames row)" by simp
        from dict_row_values[OF lr this] rx show ?thesis
          by (auto simp: storable_legal_text)
      qed
    qed
  qed
qed

subsection \<open>The sample file system\<close>

lemma sample_paths:
  "architecture_md_path sample_root \<noteq> support_cases_csv_path sample_root"
  "architecture_md_path sample_root \<noteq> output_xlsx_path sample_root"
  "support_cases_csv_path sample_root \<noteq> output_xlsx_path sample_root"
  "architecture_md_path sample_root \<noteq> []" "support_cases_csv_path sample_root \<noteq> []"
  "output_xlsx_path sample_root \<noteq> []"
  "parent (architecture_md_path sample_root) = mid sample_root"
  "parent (support_cases_csv_path sample_root) = mid sample_root"
  "parent (output_xlsx_path sample_root) = mid sample_root"
  by (simp_all add: architecture_md_path_def support_cases_csv_path_def output_xlsx_path_def
      parent_def lit_def)

lemma not_prefix_snoc: "\<not> prefix (p @ [x]) p"
  by (auto dest: prefix_length_le)

lemma sample_nodes:
  "node_at (sample_fs md csv) (architecture_md_path sample_root) = Some (File (Text md))"
  "node_at (sample_fs md csv) (support_cases_csv_path sample_root) = Some (File (Text csv))"
  "is_dir (sample_fs md csv) (mid sample_root)"
  "\<not> is_dir (sample_fs md csv) (output_xlsx_path sample_root)"
proof -
  show "node_at (sample_fs md csv) (architecture_md_path sample_root) = Some (File (Text md))"
    using sample_paths(4) by (simp add: node_at_def sample_fs_def)
  show "node_at (sample_fs md csv) (support_cases_csv_path sample_root) = Some (File (Text csv))"
    using sample_paths(1,5) by (auto simp: node_at_def sample_fs_def)
  show "is_dir (sample_fs md csv) (mid sample_root)"
    by (simp add: is_dir_def node_at_def sample_fs_def architecture_md_path_def
        support_cases_csv_path_def)
  show "\<not> is_dir (sample_fs md csv) (output_xlsx_path sample_root)"
    using sample_paths(2,3,6)
    by (auto simp: is_dir_def node_at_def sample_fs_def output_xlsx_path_def not_prefix_snoc)
qed

lemma sample_mkdir:
  "mkdir True True (parent (output_xlsx_path sample_root)) (sample_fs md csv) = Inr (sample_fs md csv)"
  unfolding sample_paths(9) by (rule mkdir_existing[OF sample_nodes(3)])

lemma sample_ok:
  assumes "storable (PStr (universal_newlines md))"
    and "reader csv = Some rows"
    and "is_ok (run_steps (support_cases_steps (DictReader rows))
          (new_worksheet (lit ''SupportCases'')))"
  shows "is_ok (build_workbook reader now (sample_fs md csv) (architecture_md_path sample_root)
           (support_cases_csv_path sample_root) (output_xlsx_path sample_root) d)"
  unfolding build_workbook_ok_iff assemble_workbook_ok
  using assms sample_nodes[of md csv] sample_mkdir[of md csv] overview_ok[OF assms(1)]
  by auto

subsection \<open>A reader for plain CSV text\<close>

lemma split_on_none: "sep \<notin> set xs \<Longrightarrow> split_on sep xs = [xs]"
  by (induction xs) auto

lemma split_on_append:
  "sep \<notin> set xs \<Longrightarrow> split_on sep (xs @ sep # ys) = xs # split_on sep ys"
  by (induction xs) auto

lemma split_on_join:
  assumes "xs \<noteq> []" "\<forall>x\<in>set xs. sep \<notin> set x"
  shows "split_on sep (join sep xs) = xs"
  using assms
proof (induction sep xs rule: join.induct)
  case (1 sep)
  then show ?case by simp
next
  case (2 sep x)
  then show ?case by (simp add: split_on_none)
next
  case (3 sep x y ys)
  then have "split_on sep (join sep (y # ys)) = y # ys" by simp
  with 3 show ?case by (simp add: split_on_append)
qed

lemma split_on_lines:
  assumes "\<forall>l\<in>set ls. 10 \<notin> set l"
  shows "split_on 10 (concat (map (\<lambda>l. l @ [10]) ls)) = ls @ [[]]"
  using assms
proof (induction ls)
  case Nil
  then show ?case by simp
next
  case (Cons l ls)
  then have "split_on 10 (concat (map (\<lambda>l. l @ [10]) ls)) = ls @ [[]]" by simp
  moreover from Cons.prems have "10 \<notin> set l" by simp
  ultimately show ?case by (simp add: split_on_append)
qed

lemma join_chars:
  assumes "\<forall>x\<in>set xs. c \<notin> set x" "c \<noteq> sep"
  shows "c \<notin> set (join sep xs)"
  using assms by (induction sep xs rule: join.induct) auto

lemma join_empty: "join sep xs = [] \<longleftrightarrow> xs = [] \<or> xs = [[]]"
  by (induction sep xs rule: join.induct) auto

lemma plain_rowsD:
  assumes "plain_rows rows" "row \<in> set rows" "f \<in> set row"
  shows "44 \<notin> set f" "10 \<notin> set f" "34 \<notin> set f" "13 \<notin> set f" "0 \<notin> set f"
    "length f \<le> 131072"
  using assms by (auto simp: plain_rows_def plain_field_def list_all_iff)

lemma csv_lines_text:
  assumes "plain_rows rows"
  shows "csv_lines (csv_text rows) = map (join 44) rows"
proof -
  have "\<forall>l\<in>set (map (join 44) rows). 10 \<notin> set l"
  proof
    fix l assume "l \<in> set (map (join 44) rows)"
    then obtain row where row: "row \<in> set rows" "l = join 44 row" by auto
    have "\<forall>f\<in>set row. 10 \<notin> set f" using plain_rowsD(2)[OF assms row(1)] by blast
    from join_chars[OF this] row(2) show "10 \<notin> set l" by simp
  qed
  from split_on_lines[OF this]
  have "split_on 10 (csv_text rows) = map (join 44) rows @ [[]]"
    by (simp add: csv_text_def comp_def)
  then show ?thesis by (simp add: csv_lines_def)
qed

lemma csv_text_chars:
  "c \<in> set (csv_text rows) \<Longrightarrow> c = 10 \<or> (\<exists>row\<in>set rows. c \<in> set (join 44 row))"
  by (induction rows) (auto simp: csv_text_def)

lemma plain_reader_csv_text:
  assumes "plain_rows rows"
  shows "plain_reader (csv_text rows) = Some rows"
proof -
  have chars: "c \<notin> set (csv_text rows)" if c: "c = 34 \<or> c = 13 \<or> c = 0" for c
  proof
    assume "c \<in> set (csv_text rows)"
    from csv_text_chars[OF this] c obtain row where row: "row \<in> set rows" "c \<in> set (join 44 row)"
      by auto
    have "\<forall>f\<in>set row. c \<notin> set f"
      using plain_rowsD(3,4,5)[OF assms row(1)] c by blast
    from join_chars[OF this, of 44] c row(2) show False by auto
  qed
  have no: "\<not> list_ex (\<lambda>c. c = 34 \<or> c = 13 \<or> c = 0) (csv_text rows)"
    using chars by (auto simp: list_ex_iff)
  have rt: "map (\<lambda>l. if l = [] then [] else split_on 44 l) (map (join 44) rows) = rows"
  proof -
    have "(if join 44 row = [] then [] else split_on 44 (join 44 row)) = row"
      if row: "row \<in> set rows" for row
    proof (cases "join 44 row = []")
      case True
      from row assms have "row \<noteq> [[]]" by (auto simp: plain_rows_def list_all_iff)
      with True show ?thesis by (simp add: join_empty)
    next
      case False
      then have ne: "row \<noteq> []" by (auto simp: join_empty)
      have "\<forall>f\<in>set row. 44 \<notin> set f" using plain_rowsD(1)[OF assms row] by blast
      from split_on_join[OF ne this] False show ?thesis by simp
    qed
    then show ?thesis by (simp add: map_idI)
  qed
  have size: "list_all (list_all (\<lambda>f. length f \<le> 131072)) rows"
    using plain_rowsD(6)[OF assms] by (auto simp: list_all_iff)
  show ?thesis
    unfolding plain_reader_def csv_lines_text[OF assms] Let_def rt using no size by simp
qed

subsection \<open>The sheets of the workbook\<close>

lemma support_title:
  assumes "run_steps (support_cases_steps support_cases) (new_worksheet t) = Inr ws"
  shows "title ws = t"
proof (cases "support_cases = []")
  case True
  with assms have "ws = (new_worksheet t)\<lparr>freeze_panes := Some (lit ''A2'')\<rparr>"
    by (simp add: support_empty)
  then show ?thesis by simp
next
  case False
  from support_result(6)[OF False assms] show ?thesis .
qed

lemma assembled_titles:
  assumes "assemble_workbook md support_cases d now = Inr wb"
  shows "map title (sheets wb) = sheet_titles"
proof -
  from assemble_workbook_sheets[OF assms] obtain s0 s1 s2 s3 s4 where
    s: "run_steps (overview_steps md d) (new_worksheet (lit ''Sheet'')) = Inr s0"
    "run_steps scores_steps (new_worksheet (lit ''Scores'')) = Inr s1"
    "run_steps recommendations_steps (new_worksheet (lit ''Recommendations'')) = Inr s2"
    "run_steps roadmap_steps (new_worksheet (lit ''Roadmap'')) = Inr s3"
    "run_steps (support_cases_steps support_cases) (new_worksheet (lit ''SupportCases'')) = Inr s4"
    and wb: "wb = \<lparr>sheets = [s0, s1, s2, s3, s4],
           properties_title = Some (lit ''Azure WAF Assessment''),
           properties_created = Some now\<rparr>"
    by blast
  show ?thesis
    unfolding wb sheet_titles_def
    using overview_result(1)[OF s(1)] scores_title(1)[OF s(2)] recommendations_title(1)[OF s(3)]
      roadmap_title(1)[OF s(4)] support_title[OF s(5)]
    by simp
qed

lemma build_titles:
  assumes "is_ok (build_workbook reader now fs mdp csvp outp d)"
  shows "\<exists>wb. output_workbook (build_workbook reader now fs mdp csvp outp d) = Some wb \<and>
     map title (sheets wb) = sheet_titles"
proof -
  from build_workbook_output[OF assms] obtain t1 rows wb where
    a: "assemble_workbook (universal_newlines t1) (DictReader rows) d now = Inr wb"
    "output_workbook (build_workbook reader now fs mdp csvp outp d) = Some wb"
    by metis
  from assembled_titles[OF a(1)] a(2) show ?thesis by simp
qed

lemma build_accepts:
  assumes "node_at fs mdp = Some (File (Text t1))" "node_at fs csvp = Some (File (Text t2))"
    and "legal_text t1" "reader t2 = Some rows" "plain_csv rows"
    and "is_ok (mkdir True True (parent outp) fs)" "\<not> is_dir fs outp"
  shows "is_ok (build_workbook reader now fs mdp csvp outp d)"
proof -
  have "storable (PStr (universal_newlines t1))"
    by (rule storable_legal_text[OF universal_newlines_legal[OF assms(3)]])
  then have "is_ok (run_steps (overview_steps (universal_newlines t1) d) (new_worksheet (lit ''Sheet'')))"
    by (rule overview_ok)
  moreover have "is_ok (run_steps (support_cases_steps (DictReader rows))
      (new_worksheet (lit ''SupportCases'')))"
    by (rule plain_csv_ok[OF assms(5)])
  ultimately have "is_ok (assemble_workbook (universal_newlines t1) (DictReader rows) d now)"
    by (simp add: assemble_workbook_ok)
  with assms show ?thesis unfolding build_workbook_ok_iff by blast
qed

lemma overview_illegal:
  assumes "\<not> storable (PStr md)"
  shows "run_steps (overview_steps md d) ws0 = Inl IllegalCharacterError"
proof -
  define P where "P = [set_title (lit ''Overview''),
      set_freeze_panes (lit ''A6''),
      ws_setitem (lit ''A1'') (PStr (lit ''Well-Architected Framework (WAF) Assessment'')),
      style_item (lit ''A1'') (set_font (Font (Some 16) True)),
      ws_setitem (lit ''A3'') (PStr (lit ''Assessment Date'')),
      ws_setitem (lit ''B3'') (PStr (isoformat d)),
      ws_setitem (lit ''A4'') (PStr (lit ''Architecture Summary'')),
      ws_setitem (lit ''B4'')
        (PStr (lit ''Hub-and-spoke AKS with Application Gateway '' @ rightwards_arrow
               @ lit '' ILB '' @ rightwards_arrow
               @ lit '' Traefik, Private Link, Azure Firewall, Bastion, and Azure Monitor''))]
     @ map (\<lambda>addr. style_item addr (set_font (Font None True))) [lit ''A3'', lit ''A4'']
     @ [ws_setitem (lit ''A6'') (PStr (lit ''Source Architecture Document (excerpt)'')),
        style_item (lit ''A6'') (set_font (Font None True))]"
  define L where "L = [style_item (lit ''A7'') (set_alignment (Alignment None (Some (lit ''top'')) (Some True))),
        set_col_widths [(1, 28), (2, 120)],
        set_row_height 7 320]"
  have form: "overview_steps md d = P @ (ws_setitem (lit ''A7'') (PStr md) # L)"
    unfolding overview_steps_def P_def L_def by simp
  have "\<forall>f\<in>set P. never_raises f"
    unfolding P_def using isoformat_storable[of d]
    by (auto intro!: total_ws_setitem[OF addresses(1)] total_ws_setitem[OF addresses(2)]
      total_ws_setitem[OF addresses(3)] total_ws_setitem[OF addresses(4)]
      total_ws_setitem[OF addresses(5)] total_ws_setitem[OF addresses(6)]
      total_style_item[OF addresses(1)]
      total_style_item[OF addresses(2)] total_style_item[OF addresses(4)]
      total_style_item[OF addresses(6)] storable_lit storable_legal legal_lit)
  from totalD[OF total_run_steps[OF this], of ws0] obtain y where y: "run_steps P ws0 = Inr y" by auto
  from assms have b: "bind_value (PStr md) = Inl IllegalCharacterError"
    by (auto simp: storable_def check_string_def is_ok_def split: if_splits)
  obtain z where z: "ws_cell 7 1 y = Inr z"
    by (cases "ws_cell 7 1 y") (auto simp: ws_cell_def split: if_splits)
  have "ws_setitem (lit ''A7'') (PStr md) y = Inl IllegalCharacterError"
    unfolding ws_setitem_def addresses(7) by (simp only: option.case prod.case z b sum.case)
  then have "run_steps (ws_setitem (lit ''A7'') (PStr md) # L) y = Inl IllegalCharacterError" by simp
  then show ?thesis unfolding form using run_steps_snoc[OF y] by simp
qed

subsection \<open>The sheets that do not depend on the inputs\<close>

lemma assembled_static:
  assumes "assemble_workbook md1 cases1 d1 now1 = Inr wb1"
    and "assemble_workbook md2 cases2 d2 now2 = Inr wb2"
  shows "sheets wb1 ! 1 = sheets wb2 ! 1" "sheets wb1 ! 2 = sheets wb2 ! 2"
    "sheets wb1 ! 3 = sheets wb2 ! 3"
proof -
  from assemble_workbook_sheets[OF assms(1)] obtain s0 s1 s2 s3 s4 where
    s: "run_steps (overview_steps md1 d1) (new_worksheet (lit ''Sheet'')) = Inr s0"
    "run_steps scores_steps (new_worksheet (lit ''Scores'')) = Inr s1"
    "run_steps recommendations_steps (new_worksheet (lit ''Recommendations'')) = Inr s2"
    "run_steps roadmap_steps (new_worksheet (lit ''Roadmap'')) = Inr s3"
    "run_steps (support_cases_steps cases1) (new_worksheet (lit ''SupportCases'')) = Inr s4"
    and wb1: "wb1 = \<lparr>sheets = [s0, s1, s2, s3, s4],
           properties_title = Some (lit ''Azure WAF Assessment''),
           properties_created = Some now1\<rparr>"
    by blast
  from assemble_workbook_sheets[OF assms(2)] obtain u0 u1 u2 u3 u4 where
    u: "run_steps (overview_steps md2 d2) (new_worksheet (lit ''Sheet'')) = Inr u0"
    "run_steps scores_steps (new_worksheet (lit ''Scores'')) = Inr u1"
    "run_steps recommendations_steps (new_worksheet (lit ''Recommendations'')) = Inr u2"
    "run_steps roadmap_steps (new_worksheet (lit ''Roadmap'')) = Inr u3"
    "run_steps (support_cases_steps cases2) (new_worksheet (lit ''SupportCases'')) = Inr u4"
    and wb2: "wb2 = \<lparr>sheets = [u0, u1, u2, u3, u4],
           properties_title = Some (lit ''Azure WAF Assessment''),
           properties_created = Some now2\<rparr>"
    by blast
  from s(2) u(2) have e1: "s1 = u1" by simp
  from s(3) u(3) have e2: "s2 = u2" by simp
  from s(4) u(4) have e3: "s3 = u3" by simp
  show "sheets wb1 ! 1 = sheets wb2 ! 1" unfolding wb1 wb2 using e1 by simp
  show "sheets wb1 ! 2 = sheets wb2 ! 2" unfolding wb1 wb2 using e2 by simp
  show "sheets wb1 ! 3 = sheets wb2 ! 3" unfolding wb1 wb2 using e3 by simp
qed

lemma build_static:
  assumes "is_ok (build_workbook reader1 now1 fs1 mdp1 csvp1 outp1 d1)"
    and "is_ok (build_workbook reader2 now2 fs2 mdp2 csvp2 outp2 d2)"
  shows "\<exists>wb1 wb2.
     output_workbook (build_workbook reader1 now1 fs1 mdp1 csvp1 outp1 d1) = Some wb1 \<and>
     output_workbook (build_workbook reader2 now2 fs2 mdp2 csvp2 outp2 d2) = Some wb2 \<and>
     map title (sheets wb1) = sheet_titles \<and> map title (sheets wb2) = sheet_titles \<and>
     sheets wb1 ! 1 = sheets wb2 ! 1 \<and> sheets wb1 ! 2 = sheets wb2 ! 2 \<and>
     sheets wb1 ! 3 = sheets wb2 ! 3"
proof -
  from build_workbook_output[OF assms(1)] obtain t1 rows1 wb1 where
    a: "assemble_workbook (universal_newlines t1) (DictReader rows1) d1 now1 = Inr wb1"
    "output_workbook (build_workbook reader1 now1 fs1 mdp1 csvp1 outp1 d1) = Some wb1"
    by metis
  from build_workbook_output[OF assms(2)] obtain u1 rows2 wb2 where
    b: "assemble_workbook (universal_newlines u1) (DictReader rows2) d2 now2 = Inr wb2"
    "output_workbook (build_workbook reader2 now2 fs2 mdp2 csvp2 outp2 d2) = Some wb2"
    by metis
  note st = assembled_static[OF a(1) b(1)]
  note ta = assembled_titles[OF a(1)] and tb = assembled_titles[OF b(1)]
  show ?thesis
    by (intro exI[of _ wb1] exI[of _ wb2] conjI a(2) b(2) st ta tb)
qed

subsection \<open>Runs on the sample file system\<close>

lemma build_workbook_illegal:
  assumes "node_at fs mdp = Some (File (Text t1))" "node_at fs csvp = Some (File (Text t2))"
    and "reader t2 = Some rows"
    and "\<not> storable (PStr (universal_newlines t1))"
  shows "build_workbook reader now fs mdp csvp outp d = Inl IllegalCharacterError"
proof -
  have r: "read_text fs mdp = Inr (universal_newlines t1)"
    using assms(1) by (simp add: read_text_result)
  have c: "read_support_cases reader fs csvp = Inr (DictReader rows)"
    using assms(2,3) by (simp add: read_support_cases_result)
  have "assemble_workbook (universal_newlines t1) (DictReader rows) d now
      = Inl IllegalCharacterError"
    unfolding assemble_workbook_eq by (simp add: overview_illegal[OF assms(4)])
  with r c show ?thesis by (simp add: build_workbook_def)
qed

lemma of_char_bound: "(of_char c :: nat) < 256"
proof -
  have "(of_char c :: nat) mod 256 = of_char c" by (rule of_char_mod_256)
  moreover have "(of_char c :: nat) mod 256 < 256" by simp
  ultimately show ?thesis by simp
qed

lemma legal_text_lit: "printable cs \<Longrightarrow> legal_text (lit cs)"
proof -
  assume p: "printable cs"
  have "xml_char (of_char c)" if "c \<in> set cs" for c
  proof -
    from p that have "32 \<le> (of_char c :: nat)" by (simp add: printable_def list_all_iff)
    with of_char_bound[of c] show ?thesis unfolding xml_char_def by linarith
  qed
  then show ?thesis by (simp add: legal_text_def lit_def list_all_iff)
qed

lemma legal_text_Nil [simp]: "legal_text []"
  by (simp add: legal_text_def)

lemma plain_csv_sample_rows: "plain_csv sample_rows"
  by (simp add: plain_csv_def sample_rows_def legal_text_lit)

lemma plain_rows_sample_rows: "plain_rows sample_rows"
  by (simp add: plain_rows_def plain_field_def sample_rows_def lit_def)

lemma plain_Nil: "plain_csv []" "plain_rows []"
  by (simp_all add: plain_csv_def plain_rows_def)

lemma sample_run_ok:
  assumes "legal_text md" "plain_rows rows" "plain_csv rows"
  shows "is_ok (sample_run md rows now)"
  unfolding sample_run_def
proof (rule build_accepts[OF sample_nodes(1) sample_nodes(2) assms(1)])
  show "plain_reader (csv_text rows) = Some rows" by (rule plain_reader_csv_text[OF assms(2)])
  show "plain_csv rows" by (rule assms(3))
  show "is_ok (mkdir True True (parent (output_xlsx_path sample_root))
      (sample_fs md (csv_text rows)))"
    by (simp add: sample_mkdir)
  show "\<not> is_dir (sample_fs md (csv_text rows)) (output_xlsx_path sample_root)"
    by (rule sample_nodes(4))
qed

subsection \<open>The saved workbook\<close>

lemma build_workbook_sheets:
  assumes "is_ok (build_workbook reader now fs mdp csvp outp d)"
  obtains t1 t2 rows s0 s1 s2 s3 s4 where
    "node_at fs mdp = Some (File (Text t1))" "node_at fs csvp = Some (File (Text t2))"
    "reader t2 = Some rows"
    "run_steps (overview_steps (universal_newlines t1) d) (new_worksheet (lit ''Sheet'')) = Inr s0"
    "run_steps scores_steps (new_worksheet (lit ''Scores'')) = Inr s1"
    "run_steps recommendations_steps (new_worksheet (lit ''Recommendations'')) = Inr s2"
    "run_steps roadmap_steps (new_worksheet (lit ''Roadmap'')) = Inr s3"
    "run_steps (support_cases_steps (DictReader rows)) (new_worksheet (lit ''SupportCases''))
       = Inr s4"
    "output_workbook (build_workbook reader now fs mdp csvp outp d) =
       Some \<lparr>sheets = [s0, s1, s2, s3, s4],
             properties_title = Some (lit ''Azure WAF Assessment''),
             properties_created = Some now\<rparr>"
proof -
  from build_workbook_output[OF assms] obtain t1 t2 rows wb where
    a: "node_at fs mdp = Some (File (Text t1))" "node_at fs csvp = Some (File (Text t2))"
    "reader t2 = Some rows"
    "assemble_workbook (universal_newlines t1) (DictReader rows) d now = Inr wb"
    "output_workbook (build_workbook reader now fs mdp csvp outp d) = Some wb"
    by metis
  from assemble_workbook_sheets[OF a(4)] obtain s0 s1 s2 s3 s4 where
    s: "run_steps (overview_steps (universal_newlines t1) d) (new_worksheet (lit ''Sheet'')) = Inr s0"
    "run_steps scores_steps (new_worksheet (lit ''Scores'')) = Inr s1"
    "run_steps recommendations_steps (new_worksheet (lit ''Recommendations'')) = Inr s2"
    "run_steps roadmap_steps (new_worksheet (lit ''Roadmap'')) = Inr s3"
    "run_steps (support_cases_steps (DictReader rows)) (new_worksheet (lit ''SupportCases''))
       = Inr s4"
    and wb: "wb = \<lparr>sheets = [s0, s1, s2, s3, s4],
           properties_title = Some (lit ''Azure WAF Assessment''),
           properties_created = Some now\<rparr>"
    by blast
  from that[OF a(1) a(2) a(3) s a(5)[unfolded wb]] show ?thesis .
qed

subsection \<open>The Overview cell A7\<close>

lemma build_overview:
  assumes "is_ok (build_workbook reader now fs mdp csvp outp d)"
    and "node_at fs mdp = Some (File (Text t1))"
  shows "output_value (build_workbook reader now fs mdp csvp outp d) 0 (7, 1) =
     Some (PStr (take 32767 (universal_newlines t1)))"
proof -
  from build_workbook_sheets[OF assms(1)] obtain u1 s0 s1 s2 s3 s4 where
    n: "node_at fs mdp = Some (File (Text u1))"
    and s: "run_steps (overview_steps (universal_newlines u1) d) (new_worksheet (lit ''Sheet'')) = Inr s0"
    and o: "output_workbook (build_workbook reader now fs mdp csvp outp d) =
       Some \<lparr>sheets = [s0, s1, s2, s3, s4],
             properties_title = Some (lit ''Azure WAF Assessment''),
             properties_created = Some now\<rparr>"
    by metis
  from n assms(2) have u: "u1 = t1" by simp
  from overview_result(4)[OF s] have "value_at s0 (7, 1) = PStr (take 32767 (universal_newlines t1))"
    by (simp add: u)
  then show ?thesis by (simp add: output_value_def o)
qed

subsection \<open>An empty list of records\<close>


subsection \<open>The clock\<close>


subsection \<open>FileNotFoundError\<close>

lemma build_workbook_fnf:
  assumes "path_exists fs mdp" "path_exists fs csvp"
  shows "build_workbook reader now fs mdp csvp outp d \<noteq> Inl (FileNotFoundError m)"
proof
  assume f: "build_workbook reader now fs mdp csvp outp d = Inl (FileNotFoundError m)"
  from assms(1) have r: "read_text fs mdp \<noteq> Inl (FileNotFoundError m)"
    by (auto simp: read_text_def open_text_def path_exists_def
        split: option.splits node.splits file_data.splits)
  from assms(2) have c: "read_support_cases reader fs csvp \<noteq> Inl (FileNotFoundError m)"
    by (auto simp: read_support_cases_def open_text_def path_exists_def
        split: option.splits node.splits file_data.splits)
  from f r obtain md where md: "read_text fs mdp = Inr md"
    by (cases "read_text fs mdp") (simp_all add: build_workbook_def)
  from f c md obtain cs where cs: "read_support_cases reader fs csvp = Inr cs"
    by (cases "read_support_cases reader fs csvp") (simp_all add: build_workbook_def)
  have "assemble_workbook md cs d now \<noteq> Inl (FileNotFoundError m)"
    using assemble_workbook_errors[of md cs d now "FileNotFoundError m"]
    by (auto simp: library_errors_def)
  with f md cs obtain wb where wb: "assemble_workbook md cs d now = Inr wb"
    by (cases "assemble_workbook md cs d now") (simp_all add: build_workbook_def)
  from f md cs wb mkdir_parents_fnf[of True "parent outp" fs m]
  obtain fs1 where fs1: "mkdir True True (parent outp) fs = Inr fs1"
    by (cases "mkdir True True (parent outp) fs") (simp_all add: build_workbook_def)
  from mkdir_result[OF fs1] have "is_dir fs1 (parent outp)" by blast
  from wb_save_fnf[OF this, of wb m] f md cs wb fs1 show False
    by (cases "wb_save wb outp fs1") (simp_all add: build_workbook_def)
qed

lemma main_fnf:
  "(\<exists>m. main reader now today ROOT fs = Inl (FileNotFoundError m)) \<longleftrightarrow>
     \<not> path_exists fs (architecture_md_path ROOT) \<or> \<not> path_exists fs (support_cases_csv_path ROOT)"
proof (cases "path_exists fs (architecture_md_path ROOT) \<and> path_exists fs (support_cases_csv_path ROOT)")
  case True
  then have e: "path_exists fs (architecture_md_path ROOT)" "path_exists fs (support_cases_csv_path ROOT)"
    by simp_all
  have "main reader now today ROOT fs \<noteq> Inl (FileNotFoundError m)" for m
    using build_workbook_fnf[OF e, of reader now "output_xlsx_path ROOT" today m] e
    by (auto simp: main_def split: sum.splits)
  with True show ?thesis by simp
next
  case False
  then show ?thesis by (auto simp: main_def)
qed

lemma main_build:
  assumes "path_exists fs (architecture_md_path ROOT)" "path_exists fs (support_cases_csv_path ROOT)"
  shows "main reader now today ROOT fs =
     (case build_workbook reader now fs (architecture_md_path ROOT) (support_cases_csv_path ROOT)
             (output_xlsx_path ROOT) today of
        Inl e \<Rightarrow> Inl e
      | Inr (fs', out) \<Rightarrow> Inr (fs', path_str out))"
  using assms by (simp add: main_def)

subsection \<open>Sample inputs\<close>

lemma long_text_facts:
  "length long_text = 32768" "legal_text long_text" "universal_newlines long_text = long_text"
  "take 32767 long_text = replicate 32767 120"
proof -
  show "length long_text = 32768" by (simp add: long_text_def)
  show "legal_text long_text" by (simp add: long_text_def legal_text_def list_all_iff xml_char_def)
  have "13 \<notin> set long_text" by (simp add: long_text_def)
  then show "universal_newlines long_text = long_text" by (rule universal_newlines_id)
  show "take 32767 long_text = replicate 32767 120" by (simp add: long_text_def)
qed


lemma sample_exists:
  "path_exists (sample_fs md csv) (architecture_md_path sample_root)"
  "path_exists (sample_fs md csv) (support_cases_csv_path sample_root)"
  by (simp_all add: path_exists_def sample_nodes)

lemma no_files_missing: "\<not> path_exists no_files (architecture_md_path sample_root)"
  using sample_paths(4) by (simp add: path_exists_def node_at_def no_files_def)

section \<open>The properties\<close>

text \<open>
  \<^bold>\<open>C1\<close>. A run that returns has saved, at the path it returns, a workbook whose sheets are
  Overview, Scores, Recommendations, Roadmap and SupportCases, in this order. A run returns
  when the two inputs are text files, the markdown text consists of XML characters (which
  leaves out the characters the spreadsheet library refuses), the CSV reader does not raise
  on the CSV text and yields plain rows (no data row longer than the header row, at most
  18278 field names, at most 1048575 data rows, fields of XML characters), the directory
  of the output can be made and the output path is not a directory. Readable inputs alone
  are not enough: see the counterexample below.
\<close>

theorem build_workbook_five_sheets:
  "(is_ok (build_workbook reader now fs mdp csvp outp d) \<longrightarrow>
      (\<exists>wb. output_workbook (build_workbook reader now fs mdp csvp outp d) = Some wb \<and>
         map title (sheets wb) = sheet_titles)) \<and>
   (node_at fs mdp = Some (File (Text t1)) \<and> node_at fs csvp = Some (File (Text t2)) \<and>
    legal_text t1 \<and> reader t2 = Some rows \<and> plain_csv rows \<and>
    is_ok (mkdir True True (parent outp) fs) \<and> \<not> is_dir fs outp \<longrightarrow>
      is_ok (build_workbook reader now fs mdp csvp outp d))"
  using build_titles[of reader now fs mdp csvp outp d]
    build_accepts[of fs mdp t1 csvp t2 reader rows outp now d]
  by blast

text \<open>The theorem on the sample file system, with the sample rows as the CSV text.\<close>

theorem build_workbook_five_sheets_witness:
  "is_ok (sample_run (lit ''# Architecture'') sample_rows 0) \<and>
   (\<exists>wb. output_workbook (sample_run (lit ''# Architecture'') sample_rows 0) = Some wb \<and>
      map title (sheets wb) = sheet_titles)"
proof -
  have ok: "is_ok (sample_run (lit ''# Architecture'') sample_rows 0)"
    by (rule sample_run_ok[OF legal_text_lit plain_rows_sample_rows plain_csv_sample_rows]) simp
  with build_workbook_five_sheets[of plain_reader 0
      "sample_fs (lit ''# Architecture'') (csv_text sample_rows)"
      "architecture_md_path sample_root"
      "support_cases_csv_path sample_root" "output_xlsx_path sample_root" sample_date]
  show ?thesis unfolding sample_run_def by blast
qed

text \<open>
  A markdown file that holds a form feed (character 12) is readable, and so is the empty
  CSV file; the run raises \<^verbatim>\<open>IllegalCharacterError\<close> at the assignment to cell A7, and no
  workbook is made.
\<close>

theorem build_workbook_form_feed:
  "node_at (sample_fs [12] (csv_text [])) (architecture_md_path sample_root)
     = Some (File (Text [12])) \<and>
   node_at (sample_fs [12] (csv_text [])) (support_cases_csv_path sample_root)
     = Some (File (Text [])) \<and>
   plain_reader [] = Some [] \<and>
   sample_run [12] [] 0 = Inl IllegalCharacterError"
proof -
  have e: "csv_text [] = []" by (simp add: csv_text_def)
  have r: "plain_reader (csv_text []) = Some []" by (rule plain_reader_csv_text[OF plain_Nil(2)])
  have "\<not> storable (PStr (universal_newlines [12]))"
    by (simp add: storable_PStr illegal_character_def)
  from build_workbook_illegal[of "sample_fs [12] (csv_text [])" "architecture_md_path sample_root"
      "[12]" "support_cases_csv_path sample_root" "csv_text []" plain_reader "[]",
      OF sample_nodes(1) sample_nodes(2) r this] r
  show ?thesis by (simp add: sample_run_def sample_nodes e)
qed

text \<open>
  \<^bold>\<open>C3\<close>. The sheets Scores, Recommendations and Roadmap (the second, third and fourth sheet
  of the saved workbook) do not depend on the inputs: two runs that return, on any file
  systems, paths, dates, clock readings and CSV readers, save the same three sheets
  (cells with their values and styles, tables, rules, widths).
\<close>

theorem static_sheets:
  assumes "is_ok (build_workbook reader1 now1 fs1 mdp1 csvp1 outp1 d1)"
    and "is_ok (build_workbook reader2 now2 fs2 mdp2 csvp2 outp2 d2)"
  shows "\<exists>wb1 wb2.
     output_workbook (build_workbook reader1 now1 fs1 mdp1 csvp1 outp1 d1) = Some wb1 \<and>
     output_workbook (build_workbook reader2 now2 fs2 mdp2 csvp2 outp2 d2) = Some wb2 \<and>
     map title (sheets wb1) = sheet_titles \<and> map title (sheets wb2) = sheet_titles \<and>
     sheets wb1 ! 1 = sheets wb2 ! 1 \<and> sheets wb1 ! 2 = sheets wb2 ! 2 \<and>
     sheets wb1 ! 3 = sheets wb2 ! 3"
  using assms by (rule build_static)

text \<open>Two runs on different markdown texts, CSV rows and clock readings.\<close>

theorem static_sheets_witness:
  "is_ok (sample_run (lit ''# Architecture'') sample_rows 0) \<and>
   is_ok (sample_run (lit ''none'') [] 1) \<and>
   (\<exists>wb1 wb2.
     output_workbook (sample_run (lit ''# Architecture'') sample_rows 0) = Some wb1 \<and>
     output_workbook (sample_run (lit ''none'') [] 1) = Some wb2 \<and>
     map title (sheets wb1) = sheet_titles \<and> map title (sheets wb2) = sheet_titles \<and>
     sheets wb1 ! 1 = sheets wb2 ! 1 \<and> sheets wb1 ! 2 = sheets wb2 ! 2 \<and>
     sheets wb1 ! 3 = sheets wb2 ! 3)"
proof -
  have ok1: "is_ok (sample_run (lit ''# Architecture'') sample_rows 0)"
    by (rule sample_run_ok[OF legal_text_lit plain_rows_sample_rows plain_csv_sample_rows]) simp
  have ok2: "is_ok (sample_run (lit ''none'') [] 1)"
    by (rule sample_run_ok[OF legal_text_lit plain_Nil(2) plain_Nil(1)]) simp
  from static_sheets[OF ok1[unfolded sample_run_def] ok2[unfolded sample_run_def]] ok1 ok2
  show ?thesis unfolding sample_run_def by blast
qed



text \<open>
  \<^bold>\<open>C5\<close>. Cell A7 of the Overview sheet holds the text of the markdown file as Python reads
  it (the line ends \<^verbatim>\<open>\r\n\<close> and \<^verbatim>\<open>\r\<close> turned into \<^verbatim>\<open>\n\<close>), cut to its first 32767
  characters: the library cuts every string it stores. The cell holds the whole text,
  character for character, when the file has no carriage return and at most 32767
  characters. A longer file is not copied in full: see the counterexample below.
\<close>

theorem overview_document:
  assumes "is_ok (build_workbook reader now fs mdp csvp outp d)"
    and "node_at fs mdp = Some (File (Text t1))"
  shows "output_value (build_workbook reader now fs mdp csvp outp d) 0 (7, 1)
       = Some (PStr (take 32767 (universal_newlines t1))) \<and>
     (13 \<notin> set t1 \<and> length t1 \<le> 32767 \<longrightarrow>
        output_value (build_workbook reader now fs mdp csvp outp d) 0 (7, 1) = Some (PStr t1))"
  using build_overview[OF assms] by (auto simp: universal_newlines_id)

text \<open>A short markdown file without carriage returns is copied whole.\<close>

theorem overview_document_witness:
  "is_ok (sample_run (lit ''# Architecture'') sample_rows 0) \<and>
   output_value (sample_run (lit ''# Architecture'') sample_rows 0) 0 (7, 1)
     = Some (PStr (lit ''# Architecture''))"
proof -
  have ok: "is_ok (sample_run (lit ''# Architecture'') sample_rows 0)"
    by (rule sample_run_ok[OF legal_text_lit plain_rows_sample_rows plain_csv_sample_rows]) simp
  have s: "13 \<notin> set (lit ''# Architecture'') \<and> length (lit ''# Architecture'') \<le> 32767"
    by (simp add: lit_def)
  from overview_document[OF ok[unfolded sample_run_def] sample_nodes(1)] s ok
  show ?thesis unfolding sample_run_def by blast
qed

text \<open>
  A markdown file of 32768 letters \<^verbatim>\<open>x\<close>: the run returns, and cell A7 holds 32767 of them.
\<close>

theorem overview_document_cut:
  "node_at (sample_fs long_text (csv_text [])) (architecture_md_path sample_root)
     = Some (File (Text long_text)) \<and>
   length long_text = 32768 \<and>
   output_value (sample_run long_text [] 0) 0 (7, 1) = Some (PStr (replicate 32767 120)) \<and>
   PStr (replicate 32767 120) \<noteq> PStr long_text"
proof -
  have ok: "is_ok (sample_run long_text [] 0)"
    by (rule sample_run_ok[OF long_text_facts(2) plain_Nil(2) plain_Nil(1)])
  from build_overview[OF ok[unfolded sample_run_def] sample_nodes(1)]
  have "output_value (sample_run long_text [] 0) 0 (7, 1) = Some (PStr (replicate 32767 120))"
    unfolding sample_run_def long_text_facts(3) long_text_facts(4) .
  moreover have "PStr (replicate 32767 120) \<noteq> PStr long_text"
    by (simp add: long_text_def)
  ultimately show ?thesis by (simp add: sample_nodes long_text_facts(1))
qed




text \<open>
  \<^bold>\<open>C4\<close>. \<open>main\<close> raises \<^verbatim>\<open>FileNotFoundError\<close> exactly when the architecture document or the
  CSV file of the support cases does not exist. When both exist, \<open>main\<close> is the call of
  \<open>build_workbook\<close> on the three paths under \<open>ROOT\<close>: every exception of the call is the
  exception of \<open>main\<close>, unchanged, and a returned path is printed.
\<close>

theorem main_existence_checks:
  "((\<exists>m. main reader now today ROOT fs = Inl (FileNotFoundError m)) \<longleftrightarrow>
      \<not> path_exists fs (architecture_md_path ROOT) \<or>
      \<not> path_exists fs (support_cases_csv_path ROOT)) \<and>
   (path_exists fs (architecture_md_path ROOT) \<and> path_exists fs (support_cases_csv_path ROOT) \<longrightarrow>
      main reader now today ROOT fs =
        (case build_workbook reader now fs (architecture_md_path ROOT)
                (support_cases_csv_path ROOT) (output_xlsx_path ROOT) today of
           Inl e \<Rightarrow> Inl e
         | Inr (fs', out) \<Rightarrow> Inr (fs', path_str out)))"
  using main_fnf[of reader now today ROOT fs] main_build[of fs ROOT reader now today]
  by blast

text \<open>
  On the sample file system both files exist and \<open>main\<close> returns; on a file system without
  files it raises \<^verbatim>\<open>FileNotFoundError\<close>.
\<close>

theorem main_existence_checks_witness:
  "path_exists (sample_fs (lit ''# Architecture'') (csv_text sample_rows))
     (architecture_md_path sample_root) \<and>
   path_exists (sample_fs (lit ''# Architecture'') (csv_text sample_rows))
     (support_cases_csv_path sample_root) \<and>
   is_ok (main plain_reader 0 sample_date sample_root
     (sample_fs (lit ''# Architecture'') (csv_text sample_rows))) \<and>
   \<not> path_exists no_files (architecture_md_path sample_root) \<and>
   (\<exists>m. main plain_reader 0 sample_date sample_root no_files = Inl (FileNotFoundError m))"
proof -
  let ?fs = "sample_fs (lit ''# Architecture'') (csv_text sample_rows)"
  have ok: "is_ok (sample_run (lit ''# Architecture'') sample_rows 0)"
    by (rule sample_run_ok[OF legal_text_lit plain_rows_sample_rows plain_csv_sample_rows]) simp
  note e = sample_exists[of "lit ''# Architecture''" "csv_text sample_rows"]
  from main_existence_checks[of plain_reader 0 sample_date sample_root ?fs] e
  have "main plain_reader 0 sample_date sample_root ?fs =
        (case sample_run (lit ''# Architecture'') sample_rows 0 of
           Inl e \<Rightarrow> Inl e
         | Inr (fs', out) \<Rightarrow> Inr (fs', path_str out))"
    unfolding sample_run_def by blast
  with ok have m: "is_ok (main plain_reader 0 sample_date sample_root ?fs)"
    by (auto simp: is_ok_iff)
  from main_existence_checks[of plain_reader 0 sample_date sample_root no_files] no_files_missing
  have "\<exists>m. main plain_reader 0 sample_date sample_root no_files = Inl (FileNotFoundError m)"
    by blast
  with e m no_files_missing show ?thesis by blast
qed

end
